theory Spec2Isabelle
  imports Main "HOL-Library.Word"
begin

section \<open>The TFTP connection state machine of connection.js\<close>

text \<open>
  The module exports one event-driven state machine with the states \<open>init\<close>,
  \<open>getData\<close>, \<open>oack\<close>, \<open>prepareDataPacket\<close> and \<open>sendDataPacket\<close> and a
  \<open>final\<close> handler. Each state handler is embedded as a function from the connection
  context to the updated context, the datagrams it sends and what it does last: it
  calls \<open>next\<close>, or it arms its listener and its timeout and returns, or it throws.

  Conventions of the embedding.
  \<^item> A Buffer is a list of bytes (\<open>8 word\<close>). JavaScript numbers that count (cursor,
    block, try, lengths) are \<open>nat\<close>.
  \<^item> A JavaScript string is a \<open>string\<close>, one character per byte: \<open>toString\<close> and
    \<open>buf.write\<close> are exact for ASCII text, where UTF-8 is the identity and the length of
    a string is its number of bytes. Text outside ASCII is not covered.
  \<^item> An exception thrown by a Buffer accessor is the value \<open>Inl RangeError\<close>. A
    state handler that throws returns the exception together with the context as it
    is at that moment.
\<close>

subsection \<open>Buffers\<close>

type_synonym byte = "8 word"
type_synonym buffer = "byte list"

datatype exn = RangeError | TypeError

text \<open>\<open>buf[i]\<close>: the byte at index \<open>i\<close>, \<open>undefined\<close> at or past the end.\<close>

definition buf_at :: "buffer \<Rightarrow> nat \<Rightarrow> byte option" where
  "buf_at b i = (if i < length b then Some (b ! i) else None)"

text \<open>\<open>buf.readUInt16BE(off)\<close> throws a RangeError unless two bytes are there.\<close>

definition readUInt16BE :: "buffer \<Rightarrow> nat \<Rightarrow> exn + nat" where
  "readUInt16BE b off =
     (case (buf_at b off, buf_at b (off + 1)) of
        (Some hi, Some lo) \<Rightarrow> Inr (256 * unat hi + unat lo)
      | _ \<Rightarrow> Inl RangeError)"

text \<open>\<open>buf.slice(s, e)\<close> for non-negative indices: both ends are clamped to the length.\<close>

definition slice :: "buffer \<Rightarrow> nat \<Rightarrow> nat \<Rightarrow> buffer" where
  "slice b s e = take (e - s) (drop s b)"

definition toString :: "buffer \<Rightarrow> string" where
  "toString b = map (\<lambda>x. char_of (unat x)) b"

definition bytes_of :: "string \<Rightarrow> buffer" where
  "bytes_of s = map (\<lambda>c. of_nat (of_char c)) s"

definition alloc :: "nat \<Rightarrow> buffer" where
  "alloc n = replicate n 0"

text \<open>\<open>buf.writeUInt16BE(v, off)\<close> throws unless \<open>v\<close> fits 16 bits and two bytes are there.\<close>

definition writeUInt16BE :: "nat \<Rightarrow> nat \<Rightarrow> buffer \<Rightarrow> exn + buffer" where
  "writeUInt16BE v off b =
     (if v < 65536 \<and> off + 2 \<le> length b
      then Inr (b[off := of_nat (v div 256), off + 1 := of_nat (v mod 256)])
      else Inl RangeError)"

text \<open>\<open>buf.write(str, off)\<close> writes as much of the string as fits and never throws.\<close>

definition buf_write :: "string \<Rightarrow> nat \<Rightarrow> buffer \<Rightarrow> buffer" where
  "buf_write s off b =
     take off b @ take (length b - off) (bytes_of s) @ drop (off + length s) b"

subsection \<open>Packet: a read cursor over the request\<close>

record Packet =
  buf :: buffer
  ptr :: nat

definition uint16 :: "Packet \<Rightarrow> exn + (nat \<times> Packet)" where
  "uint16 p =
     (case readUInt16BE (buf p) (ptr p) of
        Inl e \<Rightarrow> Inl e
      | Inr v \<Rightarrow> Inr (v, p\<lparr>ptr := ptr p + 2\<rparr>))"

text \<open>The loop \<open>while (this.buf[this.ptr]) this.ptr++\<close>: it stops at a zero byte and
  at \<open>undefined\<close>.\<close>

function scan :: "buffer \<Rightarrow> nat \<Rightarrow> nat" where
  "scan b i =
     (case buf_at b i of
        None \<Rightarrow> i
      | Some x \<Rightarrow> if x \<noteq> 0 then scan b (i + 1) else i)"
  by pat_completeness auto
termination
  by (relation "measure (\<lambda>(b, i). length b - i)") (auto simp: buf_at_def split: if_splits)

declare scan.simps [simp del]

definition cstr :: "Packet \<Rightarrow> string \<times> Packet" where
  "cstr p =
     (let start = ptr p; e = scan (buf p) (ptr p)
      in (toString (slice (buf p) start e), p\<lparr>ptr := e + 1\<rparr>))"

definition endReached :: "Packet \<Rightarrow> bool" where
  "endReached p = (ptr p > length (buf p))"

subsection \<open>JavaScript numbers and their conversions\<close>

text \<open>
  \<open>ctx.blocksize\<close> is a JavaScript number computed from an option string. The model
  has the integers and \<open>NaN\<close>. \<open>toNumber\<close> is the conversion \<open>Math.min\<close> applies
  to a string argument; it is exact on strings of decimal digits (the empty string
  converts to 0) and on text that is no numeric literal (\<open>NaN\<close>). Signed, fractional,
  exponent, radix-prefixed and blank-padded literals are not covered, and the theorems
  that depend on a conversion assume a digit string.
\<close>

datatype jsnum = Num int | NaN

definition isDigit :: "char \<Rightarrow> bool" where
  "isDigit c = (48 \<le> (of_char c :: nat) \<and> (of_char c :: nat) \<le> 57)"

definition digitsValue :: "string \<Rightarrow> nat" where
  "digitsValue s = foldl (\<lambda>a c. 10 * a + (of_char c - 48)) 0 s"

definition toNumber :: "string \<Rightarrow> jsnum" where
  "toNumber s = (if list_all isDigit s then Num (int (digitsValue s)) else NaN)"

fun Math_min :: "jsnum \<Rightarrow> jsnum \<Rightarrow> jsnum" where
  "Math_min (Num a) (Num b) = Num (min a b)"
| "Math_min _ _ = NaN"

fun js_mul :: "jsnum \<Rightarrow> jsnum \<Rightarrow> jsnum" where
  "js_mul (Num a) (Num b) = Num (a * b)"
| "js_mul _ _ = NaN"

fun js_add :: "jsnum \<Rightarrow> jsnum \<Rightarrow> jsnum" where
  "js_add (Num a) (Num b) = Num (a + b)"
| "js_add _ _ = NaN"

text \<open>\<open>a !== b\<close> on numbers: \<open>NaN\<close> differs from everything, itself included.\<close>

fun js_neq :: "jsnum \<Rightarrow> jsnum \<Rightarrow> bool" where
  "js_neq (Num a) (Num b) = (a \<noteq> b)"
| "js_neq _ _ = True"

function decimal :: "nat \<Rightarrow> string" where
  "decimal n =
     (if n < 10 then [char_of (48 + n)]
      else decimal (n div 10) @ [char_of (48 + n mod 10)])"
  by pat_completeness auto
termination
  by (relation "measure id") auto

declare decimal.simps [simp del]

text \<open>\<open>String(x)\<close> for a number.\<close>

fun String :: "jsnum \<Rightarrow> string" where
  "String (Num i) = (if i < 0 then CHR ''-'' # decimal (nat (- i)) else decimal (nat i))"
| "String NaN = ''NaN''"

text \<open>\<open>data.slice(s, e)\<close> with number arguments: \<open>NaN\<close> counts as 0, a negative
  index counts from the end, and both ends are clamped to the buffer.\<close>

definition sliceIndex :: "nat \<Rightarrow> jsnum \<Rightarrow> nat" where
  "sliceIndex len x =
     (case x of
        NaN \<Rightarrow> 0
      | Num i \<Rightarrow> if i < 0 then nat (max (int len + i) 0) else min (nat i) len)"

definition js_slice :: "buffer \<Rightarrow> jsnum \<Rightarrow> jsnum \<Rightarrow> buffer" where
  "js_slice b s e = slice b (sliceIndex (length b) s) (sliceIndex (length b) e)"

subsection \<open>The connection context and the state machine's vocabulary\<close>

text \<open>\<open>ctx.options\<close> is a JavaScript Map: keys are unique, entries keep the order of
  their first insertion, and \<open>set\<close> on a present key replaces the value in place.\<close>

type_synonym options_map = "(string \<times> string) list"

fun Map_set :: "string \<Rightarrow> string \<Rightarrow> options_map \<Rightarrow> options_map" where
  "Map_set k v [] = [(k, v)]"
| "Map_set k v ((k', v') # m) =
     (if k' = k then (k, v) # m else (k', v') # Map_set k v m)"

text \<open>The fields of \<open>ctx\<close> that the states use. \<open>ctx.try\<close> is the field \<open>try_no\<close>,
  and \<open>ctx.routes\<close> is passed to getData as an argument of its own.\<close>

record ctx =
  clientKey :: string
  request :: "buffer option"
  filename :: string
  mode :: string
  try_no :: nat
  options :: options_map
  data :: buffer
  block :: nat
  blocksize :: jsnum
  packet :: buffer

datatype state = Init | GetData | Oack | PrepareDataPacket | SendDataPacket

text \<open>The argument of \<open>next\<close>: a state name, an Error with its message, or \<open>null\<close>.\<close>

datatype nextarg = State state | Error string | Null

text \<open>What is observable of a run: a datagram handed to \<open>o(clientKey, packet)\<close>, and
  the invocation of the handler of route \<open>i\<close>.\<close>

datatype effect = Out string buffer | Call nat

text \<open>How a state handler ends: with a call of \<open>next\<close>, or by returning with its
  listener registered and \<open>next.timeout(ms, target)\<close> pending.\<close>

datatype outcome = Next nextarg | Wait nat nextarg

type_synonym handled = "(exn \<times> ctx) + (ctx \<times> effect list \<times> outcome)"

definition getErrorCode :: "string \<Rightarrow> nat" where
  "getErrorCode message =
     (if message = ''File not found.'' then 1
      else if message = ''Access violation.'' then 2
      else if message = ''Disk full or allocation exceeded.'' then 3
      else if message = ''Illegal TFTP operation.'' then 4
      else if message = ''Unknown transfer ID.'' then 5
      else if message = ''File already exists.'' then 6
      else if message = ''No such user.'' then 7
      else 0)"

subsection \<open>State init\<close>

text \<open>One round of the option loop: read a key and a value, keep the pair when the
  key is not empty.\<close>

definition optionStep :: "Packet \<times> options_map \<Rightarrow> Packet \<times> options_map" where
  "optionStep s =
     (let (key, req1) = cstr (fst s);
          (val, req2) = cstr req1
      in (req2, if key \<noteq> [] then Map_set key val (snd s) else snd s))"

lemma scan_ge: "i \<le> scan b i"
proof (induction b i rule: scan.induct)
  case (1 b i)
  show ?case
  proof (cases "buf_at b i")
    case None
    then show ?thesis by (simp add: scan.simps [of b i])
  next
    case (Some x)
    with 1 show ?thesis
      by (cases "x = 0") (auto simp: scan.simps [of b i])
  qed
qed

lemma cstr_buf: "buf (snd (cstr p)) = buf p"
  by (simp add: cstr_def Let_def)

lemma cstr_ptr: "ptr (snd (cstr p)) = scan (buf p) (ptr p) + 1"
  by (simp add: cstr_def Let_def)

lemma optionStep_buf: "buf (fst (optionStep s)) = buf (fst s)"
  by (simp add: optionStep_def Let_def cstr_buf split: prod.splits)
    (metis cstr_buf snd_conv)

lemma optionStep_ptr: "ptr (fst s) + 2 \<le> ptr (fst (optionStep s))"
proof -
  obtain k p1 where c1: "cstr (fst s) = (k, p1)" by (cases "cstr (fst s)")
  obtain v p2 where c2: "cstr p1 = (v, p2)" by (cases "cstr p1")
  have "ptr (fst s) + 1 \<le> ptr p1"
    using cstr_ptr [of "fst s"] c1 scan_ge [of "ptr (fst s)" "buf (fst s)"] by simp
  moreover have "ptr p1 + 1 \<le> ptr p2"
    using cstr_ptr [of p1] c2 scan_ge [of "ptr p1" "buf p1"] by simp
  ultimately show ?thesis
    by (simp add: optionStep_def c1 c2)
qed

function parseOptions :: "Packet \<times> options_map \<Rightarrow> Packet \<times> options_map" where
  "parseOptions s =
     (if \<not> endReached (fst s) then parseOptions (optionStep s) else s)"
  by pat_completeness auto
termination
proof (relation "measure (\<lambda>s. length (buf (fst s)) + 1 - ptr (fst s))")
  show "wf (measure (\<lambda>s. length (buf (fst s)) + 1 - ptr (fst s)))" by simp
next
  fix s :: "Packet \<times> options_map"
  assume "\<not> endReached (fst s)"
  then have "ptr (fst s) \<le> length (buf (fst s))" by (simp add: endReached_def)
  with optionStep_ptr [of s] optionStep_buf [of s]
  show "(optionStep s, s) \<in> measure (\<lambda>s. length (buf (fst s)) + 1 - ptr (fst s))"
    by simp
qed

declare parseOptions.simps [simp del]

definition init :: "ctx \<Rightarrow> handled" where
  "init c =
     (case request c of
        None \<Rightarrow> Inl (TypeError, c)
      | Some r \<Rightarrow>
          (case uint16 \<lparr>buf = r, ptr = 0\<rparr> of
             Inl e \<Rightarrow> Inl (e, c\<lparr>request := None\<rparr>)
           | Inr (opcode, req1) \<Rightarrow>
               (let c1 = c\<lparr>request := None\<rparr> in
                if opcode \<noteq> 1 then Inr (c1, [], Next (Error ''Illegal TFTP operation.''))
                else
                  (let (name, req2) = cstr req1;
                       c2 = c1\<lparr>filename := name\<rparr>
                   in if length name = 0 then Inr (c2, [], Next (Error ''File not found.''))
                      else
                        (let (m, req3) = cstr req2;
                             c3 = c2\<lparr>mode := m, try_no := 0\<rparr>;
                             (req4, opts) = parseOptions (req3, [])
                         in Inr (c3\<lparr>options := opts\<rparr>, [], Next (State GetData)))))))"

subsection \<open>State getData\<close>

text \<open>
  A route is unregistered (\<open>None\<close>) or has a filter and a handler. The filter is
  \<open>undefined\<close>, a regular expression (its \<open>test\<close> as a predicate) or a value compared
  with \<open>===\<close>. The handler answers through one of its two callbacks: with the data, or
  with a failure that is an Error (\<open>Some message\<close>) or anything else (\<open>None\<close>), which
  means that the next route is tried.
\<close>

datatype route_filter = Undefined | RegExp "string \<Rightarrow> bool" | Value string

datatype handler_result = Success buffer | Failure "string option"

datatype route = Route route_filter "ctx \<Rightarrow> handler_result"

fun matches :: "route_filter \<Rightarrow> string \<Rightarrow> bool" where
  "matches Undefined name = True"
| "matches (RegExp test) name = test name"
| "matches (Value v) name = (v = name)"

function tryRoute :: "route option list \<Rightarrow> ctx \<Rightarrow> nat \<Rightarrow> ctx \<times> effect list \<times> outcome" where
  "tryRoute routes c i =
     (if i \<ge> length routes then (c, [], Next (Error ''File not found.''))
      else
        (case routes ! i of
           None \<Rightarrow> tryRoute routes c (i + 1)
         | Some (Route f handler) \<Rightarrow>
             if matches f (filename c) then
               (case handler c of
                  Success d \<Rightarrow>
                    (c\<lparr>data := d, block := 0, blocksize := Num 512\<rparr>, [Call i],
                     Next (State Oack))
                | Failure (Some message) \<Rightarrow> (c, [Call i], Next (Error message))
                | Failure None \<Rightarrow>
                    (let (c', fx, out) = tryRoute routes c (i + 1)
                     in (c', Call i # fx, out)))
             else tryRoute routes c (i + 1)))"
  by pat_completeness auto
termination
  by (relation "measure (\<lambda>(routes, c, i). length routes - i)") auto

declare tryRoute.simps [simp del]

definition getData :: "route option list \<Rightarrow> ctx \<Rightarrow> handled" where
  "getData routes c = Inr (tryRoute routes c 0)"

subsection \<open>State oack\<close>

text \<open>The callback of \<open>[...ctx.options.entries()].map\<close>: it may assign
  \<open>ctx.blocksize\<close> and returns the buffer of one option.\<close>

definition oack_option :: "ctx \<Rightarrow> string \<times> string \<Rightarrow> ctx \<times> buffer" where
  "oack_option c kv =
     (let k = fst kv; v = snd kv;
          (c', acceptedValue) =
            (if k = ''blksize'' then
               (let c1 = c\<lparr>blocksize := Math_min (toNumber v) (Num 1428)\<rparr>
                in (c1, Some (String (blocksize c1))))
             else if k = ''windowsize'' then (c, Some ''1'')
             else if k = ''tsize'' then (c, Some (String (Num (int (length (data c))))))
             else (c, None));
          str = (case acceptedValue of
                   Some a \<Rightarrow> k @ [CHR 0x00] @ a @ [CHR 0x00]
                 | None \<Rightarrow> [])
      in (c', buf_write str 0 (alloc (length str))))"

fun oack_options :: "ctx \<Rightarrow> options_map \<Rightarrow> ctx \<times> buffer list" where
  "oack_options c [] = (c, [])"
| "oack_options c (kv # rest) =
     (let (c1, b) = oack_option c kv;
          (c2, bs) = oack_options c1 rest
      in (c2, b # bs))"

definition oack :: "ctx \<Rightarrow> handled" where
  "oack c =
     (let t = try_no c; c1 = c\<lparr>try_no := t + 1\<rparr> in
      if t > 3 then Inr (c1, [], Next Null)
      else if length (options c1) = 0 then Inr (c1, [], Next (State PrepareDataPacket))
      else
        (case writeUInt16BE 6 0 (alloc 2) of
           Inl e \<Rightarrow> Inl (e, c1)
         | Inr header \<Rightarrow>
             (let (c2, opts) = oack_options c1 (options c1);
                  pkt = concat (header # opts)
              in Inr (c2, [Out (clientKey c2) pkt], Wait 1000 (State Oack)))))"

text \<open>The listener armed by oack. \<open>Inr None\<close>: the callback returns without calling
  \<open>next\<close>.\<close>

definition oack_listener :: "ctx \<Rightarrow> buffer \<Rightarrow> exn + nextarg option" where
  "oack_listener c msg =
     (case readUInt16BE msg 0 of
        Inl e \<Rightarrow> Inl e
      | Inr opcode \<Rightarrow>
          if opcode \<noteq> 4 then Inr None
          else
            (case readUInt16BE msg 2 of
               Inl e \<Rightarrow> Inl e
             | Inr blk \<Rightarrow>
                 if blk \<noteq> 0 then Inr None
                 else Inr (Some (State PrepareDataPacket))))"

subsection \<open>States prepareDataPacket and sendDataPacket\<close>

definition prepareDataPacket :: "ctx \<Rightarrow> handled" where
  "prepareDataPacket c =
     (case writeUInt16BE 3 0 (alloc 4) of
        Inl e \<Rightarrow> Inl (e, c)
      | Inr h \<Rightarrow>
          (case writeUInt16BE (block c + 1) 2 h of
             Inl e \<Rightarrow> Inl (e, c)
           | Inr header \<Rightarrow>
               (let body = js_slice (data c)
                             (js_mul (Num (int (block c))) (blocksize c))
                             (js_mul (Num (int (block c + 1))) (blocksize c));
                    c1 = c\<lparr>packet := header @ body, block := block c + 1, try_no := 0\<rparr>
                in Inr (c1, [], Next (State SendDataPacket)))))"

definition sendDataPacket :: "ctx \<Rightarrow> handled" where
  "sendDataPacket c =
     (let t = try_no c; c1 = c\<lparr>try_no := t + 1\<rparr> in
      if t > 3 then Inr (c1, [], Next Null)
      else Inr (c1, [Out (clientKey c1) (packet c1)], Wait 1000 (State SendDataPacket)))"

definition sendDataPacket_listener :: "ctx \<Rightarrow> buffer \<Rightarrow> exn + nextarg option" where
  "sendDataPacket_listener c msg =
     (case readUInt16BE msg 0 of
        Inl e \<Rightarrow> Inl e
      | Inr opcode \<Rightarrow>
          if opcode \<noteq> 4 then Inr None
          else
            (case readUInt16BE msg 2 of
               Inl e \<Rightarrow> Inl e
             | Inr blk \<Rightarrow>
                 if blk \<noteq> block c then Inr None
                 else if js_neq (Num (int (length (packet c)))) (js_add (blocksize c) (Num 4))
                 then Inr (Some Null)
                 else Inr (Some (State PrepareDataPacket))))"

subsection \<open>The final handler\<close>

definition final :: "ctx \<Rightarrow> string option \<Rightarrow> exn + effect list" where
  "final c err =
     (case err of
        None \<Rightarrow> Inr []
      | Some message \<Rightarrow>
          (case writeUInt16BE 5 0 (alloc (5 + length message)) of
             Inl e \<Rightarrow> Inl e
           | Inr e1 \<Rightarrow>
               (case writeUInt16BE (getErrorCode message) 2 e1 of
                  Inl e \<Rightarrow> Inl e
                | Inr e2 \<Rightarrow> Inr [Out (clientKey c) (buf_write message 4 e2)])))"

subsection \<open>The state machine that runs the handlers\<close>

text \<open>
  Modelled from the spec: the edfsm framework that calls the handlers, and the
  transport behind \<open>i\<close> and \<open>o\<close>, are not in the source file. Their behaviour is
  written out as the source relies on it and as the spec describes the steps
  (sections 4.4 to 4.7 and 5):
  \<^item> \<open>next(x)\<close> leaves the current state, which removes its listener and its
    timeout, and enters state \<open>x\<close>; when \<open>x\<close> is an Error or \<open>null\<close> it runs the
    final handler, with the error or without one;
  \<^item> a listener registered with \<open>i\<close> stays registered until the state is left: the
    listeners of the source return on a datagram they ignore and wait for the right
    one;
  \<^item> a pending timeout calls \<open>next\<close> with its target;
  \<^item> a failure of a step ends the connection with an ERROR datagram (sections 4.2, 4.7
    and 7): an exception that a state handler throws is passed to \<open>next\<close> like an
    Error that the handler passes itself, so the final handler runs with it;
  \<^item> a datagram that the listener does not take is discarded and the listener stays
    armed (sections 4.4, 4.6 and 7): that holds also for a datagram on which the
    listener throws, the connection keeps waiting.
  The text of an exception that the platform throws is in neither the source nor the
  spec: it is the parameter \<open>message_of\<close> of the run.
  A connection is its context together with a status: waiting in a state (with the
  pending timeout) or ended.
\<close>

datatype status = Waiting state nat nextarg | Ended

type_synonym config = "ctx \<times> status"

definition handler_of :: "route option list \<Rightarrow> state \<Rightarrow> ctx \<Rightarrow> handled" where
  "handler_of routes s c =
     (case s of
        Init \<Rightarrow> init c
      | GetData \<Rightarrow> getData routes c
      | Oack \<Rightarrow> oack c
      | PrepareDataPacket \<Rightarrow> prepareDataPacket c
      | SendDataPacket \<Rightarrow> sendDataPacket c)"

definition listener_of :: "state \<Rightarrow> ctx \<Rightarrow> buffer \<Rightarrow> exn + nextarg option" where
  "listener_of s c msg =
     (case s of
        Oack \<Rightarrow> oack_listener c msg
      | SendDataPacket \<Rightarrow> sendDataPacket_listener c msg
      | _ \<Rightarrow> Inr None)"

text \<open>The end of a connection: the final handler runs and what it sends is sent. The
  final handler itself never throws (lemma \<open>final_returns\<close> below), so the first
  branch is never taken.\<close>

definition finish :: "ctx \<Rightarrow> string option \<Rightarrow> config \<times> effect list" where
  "finish c err =
     (case final c err of
        Inl e \<Rightarrow> ((c, Ended), [])
      | Inr fx \<Rightarrow> ((c, Ended), fx))"

fun rank :: "nextarg \<Rightarrow> nat" where
  "rank (State Init) = 5"
| "rank (State GetData) = 4"
| "rank (State Oack) = 3"
| "rank (State PrepareDataPacket) = 2"
| "rank (State SendDataPacket) = 1"
| "rank _ = 0"

lemma tryRoute_next:
  "tryRoute routes c i = (c', fx, out) \<Longrightarrow>
   (\<exists>m. out = Next (Error m)) \<or> out = Next (State Oack)"
proof (induction routes c i arbitrary: c' fx out rule: tryRoute.induct)
  case (1 routes c i)
  show ?case
  proof (cases "i \<ge> length routes")
    case True
    with "1.prems" show ?thesis by (auto simp: tryRoute.simps [of routes c i])
  next
    case False
    show ?thesis
    proof (cases "routes ! i")
      case None
      with False "1.prems" "1.IH"(1) show ?thesis
        by (auto simp: tryRoute.simps [of routes c i])
    next
      case (Some r)
      obtain f h where r: "r = Route f h" by (cases r)
      show ?thesis
      proof (cases "matches f (filename c)")
        case no: False
        with False Some r "1.prems" "1.IH"(3) show ?thesis
          by (auto simp: tryRoute.simps [of routes c i])
      next
        case yes: True
        show ?thesis
        proof (cases "h c")
          case (Success d)
          with False Some r yes "1.prems" show ?thesis
            by (auto simp: tryRoute.simps [of routes c i])
        next
          case (Failure e)
          show ?thesis
          proof (cases e)
            case None
            obtain c2 fx2 out2 where t: "tryRoute routes c (i + 1) = (c2, fx2, out2)"
              by (cases "tryRoute routes c (i + 1)")
            from False Some r yes Failure None t "1.prems" have "out = out2"
              by (auto simp: tryRoute.simps [of routes c i])
            with "1.IH"(2) [OF False Some r yes Failure None t] show ?thesis
              by simp
          next
            case (Some m)
            with False \<open>routes ! i = Some r\<close> r yes Failure "1.prems" show ?thesis
              by (auto simp: tryRoute.simps [of routes c i])
          qed
        qed
      qed
    qed
  qed
qed

lemma handler_of_rank:
  "handler_of routes s c = Inr (c1, fx, Next a) \<Longrightarrow> rank a < rank (State s)"
proof (cases s)
  case Init
  assume "handler_of routes s c = Inr (c1, fx, Next a)"
  with Init show ?thesis
    by (auto simp: handler_of_def init_def Let_def
        split: option.splits sum.splits prod.splits if_splits)
next
  case GetData
  assume "handler_of routes s c = Inr (c1, fx, Next a)"
  with GetData tryRoute_next [of routes c 0 c1 fx "Next a"] show ?thesis
    by (auto simp: handler_of_def getData_def)
next
  case Oack
  assume "handler_of routes s c = Inr (c1, fx, Next a)"
  with Oack show ?thesis
    by (auto simp: handler_of_def oack_def Let_def
        split: sum.splits prod.splits if_splits)
next
  case PrepareDataPacket
  assume "handler_of routes s c = Inr (c1, fx, Next a)"
  with PrepareDataPacket show ?thesis
    by (auto simp: handler_of_def prepareDataPacket_def Let_def
        split: sum.splits prod.splits if_splits)
next
  case SendDataPacket
  assume "handler_of routes s c = Inr (c1, fx, Next a)"
  with SendDataPacket show ?thesis
    by (auto simp: handler_of_def sendDataPacket_def Let_def
        split: sum.splits prod.splits if_splits)
qed

text \<open>Modelled from the spec: \<open>next(a)\<close> of the framework. It runs the handlers up
  to the next wait or to the end. A handler that throws ends the connection as
  \<open>next\<close> with that error does: through the final handler, with the text of the
  exception as the message.\<close>

function goto ::
  "(exn \<Rightarrow> string) \<Rightarrow> route option list \<Rightarrow> nextarg \<Rightarrow> ctx \<Rightarrow> config \<times> effect list" where
  "goto message_of routes a c =
     (case a of
        Null \<Rightarrow> finish c None
      | Error message \<Rightarrow> finish c (Some message)
      | State s \<Rightarrow>
          (case handler_of routes s c of
             Inl (e, c1) \<Rightarrow> finish c1 (Some (message_of e))
           | Inr (c1, fx, out) \<Rightarrow>
               (case out of
                  Wait ms target \<Rightarrow> ((c1, Waiting s ms target), fx)
                | Next a1 \<Rightarrow>
                    (let (cfg, fx1) = goto message_of routes a1 c1 in (cfg, fx @ fx1)))))"
  by pat_completeness auto
termination
  by (relation "measure (\<lambda>(message_of, routes, a, c). rank a)") (auto dest: handler_of_rank)

declare goto.simps [simp del]

text \<open>Modelled from the spec: what the framework does with an event of a waiting
  connection, a datagram from the client or the expiry of the timeout. A datagram that
  the listener does not take, by returning or by throwing, leaves the connection as it
  is. A connection that has ended takes no event.\<close>

datatype event = Datagram buffer | Timeout

definition step ::
  "(exn \<Rightarrow> string) \<Rightarrow> route option list \<Rightarrow> config \<Rightarrow> event \<Rightarrow> config \<times> effect list" where
  "step message_of routes cfg ev =
     (case snd cfg of
        Waiting s ms target \<Rightarrow>
          (case ev of
             Timeout \<Rightarrow> goto message_of routes target (fst cfg)
           | Datagram msg \<Rightarrow>
               (case listener_of s (fst cfg) msg of
                  Inl e \<Rightarrow> (cfg, [])
                | Inr None \<Rightarrow> (cfg, [])
                | Inr (Some a) \<Rightarrow> goto message_of routes a (fst cfg)))
      | Ended \<Rightarrow> (cfg, []))"

fun run ::
  "(exn \<Rightarrow> string) \<Rightarrow> route option list \<Rightarrow> config \<Rightarrow> event list \<Rightarrow> config \<times> effect list" where
  "run message_of routes cfg [] = (cfg, [])"
| "run message_of routes cfg (ev # evs) =
     (let (cfg1, fx) = step message_of routes cfg ev;
          (cfg2, fx2) = run message_of routes cfg1 evs
      in (cfg2, fx @ fx2))"

subsection \<open>Fixtures for concrete runs\<close>

text \<open>The context of a new connection: the server supplies the client key and the
  request; the other fields are assigned by the states before they are read.\<close>

definition new_ctx :: "string \<Rightarrow> buffer \<Rightarrow> ctx" where
  "new_ctx key r =
     \<lparr>clientKey = key, request = Some r, filename = [], mode = [], try_no = 0,
      options = [], data = [], block = 0, blocksize = NaN, packet = []\<rparr>"

text \<open>A stand-in for the texts of the platform's exceptions in concrete runs. Like
  the platform's texts it is none of the seven messages of \<open>getErrorCode\<close>.\<close>

definition sample_text :: "exn \<Rightarrow> string" where
  "sample_text e = (case e of RangeError \<Rightarrow> ''out of range'' | TypeError \<Rightarrow> ''not an object'')"

text \<open>Text for which one character is one byte.\<close>

definition ascii :: "string \<Rightarrow> bool" where
  "ascii s = list_all (\<lambda>ch. (of_char ch :: nat) < 128) s"

subsection \<open>Runs\<close>

text \<open>Enter a state and then feed the events.\<close>

definition run_from ::
  "(exn \<Rightarrow> string) \<Rightarrow> route option list \<Rightarrow> nextarg \<Rightarrow> ctx \<Rightarrow> event list \<Rightarrow> config \<times> effect list" where
  "run_from message_of routes a c evs =
     (let (cfg, fx) = goto message_of routes a c;
          (cfg', fx') = run message_of routes cfg evs
      in (cfg', fx @ fx'))"

text \<open>Reading what was sent: the error code of an effect that is an ERROR datagram,
  one that starts with the opcode 5.\<close>

definition error_code :: "effect \<Rightarrow> nat option" where
  "error_code fx =
     (case fx of
        Call i \<Rightarrow> None
      | Out key pkt \<Rightarrow>
          (case (readUInt16BE pkt 0, readUInt16BE pkt 2) of
             (Inr opcode, Inr code) \<Rightarrow> if opcode = 5 then Some code else None
           | _ \<Rightarrow> None))"

text \<open>An event that leaves a connection waiting in sendDataPacket without an
  acknowledgement: a timeout, or a datagram that the listener ignores.\<close>

definition silent :: "ctx \<Rightarrow> event \<Rightarrow> bool" where
  "silent c ev =
     (case ev of
        Timeout \<Rightarrow> True
      | Datagram msg \<Rightarrow> sendDataPacket_listener c msg = Inr None)"

definition timeouts :: "event list \<Rightarrow> nat" where
  "timeouts evs = length (filter (\<lambda>ev. ev = Timeout) evs)"

text \<open>The packet that prepareDataPacket builds: the opcode 3, the block number
  \<open>ctx.block + 1\<close> and the slice of the data.\<close>

definition dataPacket :: "ctx \<Rightarrow> buffer" where
  "dataPacket c =
     [0, 3, of_nat ((block c + 1) div 256), of_nat ((block c + 1) mod 256)] @
     js_slice (data c) (js_mul (Num (int (block c))) (blocksize c))
                       (js_mul (Num (int (block c + 1))) (blocksize c))"

text \<open>A context in the transfer phase, for concrete runs.\<close>

definition transfer_ctx :: "buffer \<Rightarrow> int \<Rightarrow> ctx" where
  "transfer_ctx d bs = (new_ctx ''client'' [])\<lparr>request := None, data := d, blocksize := Num bs\<rparr>"

text \<open>A context entering oack with the given options, for concrete runs.\<close>

definition oack_ctx :: "options_map \<Rightarrow> buffer \<Rightarrow> ctx" where
  "oack_ctx os d = (transfer_ctx d 512)\<lparr>options := os\<rparr>"

subsection \<open>Read requests on the wire\<close>

text \<open>
  The layout of a read request with options (RFC 2347): the opcode 1, the filename and
  the mode, each closed by a zero byte, and then the option names and values, each
  closed by a zero byte. \<open>wire_text\<close> is text that such a field can carry as it is:
  ASCII without the zero character.
\<close>

definition wire_text :: "string \<Rightarrow> bool" where
  "wire_text s = list_all (\<lambda>ch. 0 < (of_char ch :: nat) \<and> (of_char ch :: nat) < 128) s"

definition encode_options :: "(string \<times> string) list \<Rightarrow> buffer" where
  "encode_options os = concat (map (\<lambda>kv. bytes_of (fst kv) @ [0] @ bytes_of (snd kv) @ [0]) os)"

definition rrq :: "string \<Rightarrow> string \<Rightarrow> (string \<times> string) list \<Rightarrow> buffer" where
  "rrq name m os = [0, 1] @ bytes_of name @ [0] @ bytes_of m @ [0] @ encode_options os"

text \<open>What one round of the option loop does to the map with the pair it has read.\<close>

definition keep_option :: "options_map \<Rightarrow> string \<times> string \<Rightarrow> options_map" where
  "keep_option m kv = (if fst kv \<noteq> [] then Map_set (fst kv) (snd kv) m else m)"

text \<open>The client's acknowledgement of block \<open>k\<close>, and the DATA packet of block
  \<open>k\<close> for a block size \<open>bs\<close>: the opcode 3, the block number and the bytes from
  \<open>(k - 1) * bs\<close> up to \<open>k * bs\<close>.\<close>

definition ack :: "nat \<Rightarrow> event" where
  "ack k = Datagram [0, 4, of_nat (k div 256), of_nat (k mod 256)]"

definition block_packet :: "buffer \<Rightarrow> nat \<Rightarrow> nat \<Rightarrow> buffer" where
  "block_packet d bs k =
     [0, 3, of_nat (k div 256), of_nat (k mod 256)] @ slice d ((k - 1) * bs) (k * bs)"

text \<open>
  A transfer in which every DATA packet is acknowledged in the end: for each block
  \<open>k\<close> the events \<open>quiet k\<close>, timeouts and ignored datagrams, and then the
  acknowledgement of block \<open>k\<close>. \<open>sent\<close> lists what such a transfer puts on the
  wire for the blocks \<open>i\<close> to \<open>j - 1\<close>: the packet of each block once, and once more
  for each timeout before its acknowledgement.
\<close>

definition rounds :: "(nat \<Rightarrow> event list) \<Rightarrow> nat \<Rightarrow> nat \<Rightarrow> event list" where
  "rounds quiet i j = concat (map (\<lambda>k. quiet k @ [ack k]) [i ..< j])"

definition sent :: "string \<Rightarrow> buffer \<Rightarrow> nat \<Rightarrow> (nat \<Rightarrow> event list) \<Rightarrow> nat \<Rightarrow> nat \<Rightarrow> effect list" where
  "sent key d bs quiet i j =
     concat (map (\<lambda>k. replicate (1 + timeouts (quiet k)) (Out key (block_packet d bs k))) [i ..< j])"

section \<open>Properties\<close>

subsection \<open>Buffers, the final handler and the driver\<close>

lemma buf_write_alloc: "buf_write s 0 (alloc (length s)) = bytes_of s"
  by (simp add: buf_write_def alloc_def bytes_of_def)

lemma alloc_4: "alloc (4 + n) = [0, 0, 0, 0] @ replicate n 0"
proof -
  have "replicate 4 (0::byte) = [0, 0, 0, 0]" by (simp add: eval_nat_numeral)
  then show ?thesis by (simp add: alloc_def replicate_add)
qed

lemma take_prefix: "length ys = k \<Longrightarrow> take k (ys @ xs) = ys"
  by simp

lemma drop_prefix: "length ys = k \<Longrightarrow> drop (k + n) (ys @ xs) = drop n xs"
  by simp

lemma header_bytes:
  "op < 65536 \<Longrightarrow> v < 65536 \<Longrightarrow>
   (case writeUInt16BE op 0 (alloc (4 + n)) of
      Inl e \<Rightarrow> Inl e
    | Inr h \<Rightarrow> writeUInt16BE v 2 h) =
   Inr ([of_nat (op div 256), of_nat (op mod 256), of_nat (v div 256), of_nat (v mod 256)] @ replicate n 0)"
  by (simp add: writeUInt16BE_def alloc_4 numeral_2_eq_2 numeral_3_eq_3)

lemma getErrorCode_le: "getErrorCode m < 8"
  by (simp add: getErrorCode_def)

lemma final_error:
  "final c (Some m) =
   Inr [Out (clientKey c) ([0, 5, 0, of_nat (getErrorCode m)] @ bytes_of m @ [0])]"
proof -
  have len: "length (bytes_of m) = length m" by (simp add: bytes_of_def)
  have a: "alloc (5 + length m) = alloc (4 + (length m + 1))" by (simp add: add.commute)
  have small: "getErrorCode m div 256 = 0" "getErrorCode m mod 256 = getErrorCode m" "getErrorCode m < 65536"
    using getErrorCode_le [of m] by simp_all
  have w: "(case writeUInt16BE 5 0 (alloc (5 + length m)) of
      Inl e \<Rightarrow> Inl e
    | Inr h \<Rightarrow> writeUInt16BE (getErrorCode m) 2 h) = Inr ([0, 5, 0, of_nat (getErrorCode m)] @ replicate (length m) 0 @ [0])"
    unfolding a using header_bytes [of 5 "getErrorCode m" "length m + 1"] small
    by (simp add: replicate_append_same)
  have w3: "buf_write m 4 ([0, 5, 0, of_nat (getErrorCode m)] @ replicate (length m) 0 @ [0])
     = [0, 5, 0, of_nat (getErrorCode m)] @ bytes_of m @ [0]"
    using take_prefix [of "[0, 5, 0, of_nat (getErrorCode m)]" 4 "replicate (length m) 0 @ [0]"]
      drop_prefix [of "[0, 5, 0, of_nat (getErrorCode m)]" 4 "length m" "replicate (length m) 0 @ [0]"]
    by (simp add: buf_write_def len)
  show ?thesis
    using w w3 by (auto simp: final_def split: sum.splits)
qed


lemma finish_error:
  "finish c (Some m) =
   ((c, Ended), [Out (clientKey c) ([0, 5, 0, of_nat (getErrorCode m)] @ bytes_of m @ [0])])"
  by (simp add: finish_def final_error)

lemma readUInt16BE_head:
  "readUInt16BE (a # b # c # d # rest) 0 = Inr (256 * unat a + unat b)"
  "readUInt16BE (a # b # c # d # rest) 2 = Inr (256 * unat c + unat d)"
  by (simp_all add: readUInt16BE_def buf_at_def numeral_2_eq_2)

lemma error_code_header: "error_code (Out key (0 # 5 # 0 # 0 # rest)) = Some 0"
  by (simp add: error_code_def readUInt16BE_head)

lemma finish_null: "finish c None = ((c, Ended), [])"
  by (simp add: finish_def final_def)

lemma final_returns: "\<exists>fx. final c err = Inr fx"
  by (cases err) (simp_all add: final_error, simp add: final_def)

lemma goto_Error: "goto message_of routes (Error m) c = finish c (Some m)"
  by (simp add: goto.simps [of message_of routes "Error m" c])

lemma goto_Null: "goto message_of routes Null c = finish c None"
  by (simp add: goto.simps [of message_of routes Null c])

lemma readUInt16BE_short: "length b < off + 2 \<Longrightarrow> readUInt16BE b off = Inl RangeError"
  by (auto simp: readUInt16BE_def buf_at_def)

lemma readUInt16BE_long: "off + 2 \<le> length b \<Longrightarrow> \<exists>v. readUInt16BE b off = Inr v"
  by (auto simp: readUInt16BE_def buf_at_def)

lemma scan_end: "length b \<le> i \<Longrightarrow> scan b i = i"
  by (simp add: scan.simps [of b i] buf_at_def)

lemma cstr_past_end:
  assumes "length (buf p) \<le> ptr p"
  shows "cstr p = ([], p\<lparr>ptr := ptr p + 1\<rparr>)"
  using assms by (simp add: cstr_def Let_def scan_end slice_def toString_def)


text \<open>\<open>cstr\<close> returns the empty string exactly when the cursor is at a zero byte or
  not inside the buffer.\<close>

lemma cstr_empty_iff:
  "fst (cstr p) = [] \<longleftrightarrow>
     buf_at (buf p) (ptr p) = None \<or> buf_at (buf p) (ptr p) = Some 0"
proof (cases "buf_at (buf p) (ptr p)")
  case None
  then have "length (buf p) \<le> ptr p" by (simp add: buf_at_def split: if_splits)
  with None show ?thesis by (simp add: cstr_past_end)
next
  case (Some x)
  then have inside: "ptr p < length (buf p)" by (simp add: buf_at_def split: if_splits)
  show ?thesis
  proof (cases "x = 0")
    case True
    with Some have "scan (buf p) (ptr p) = ptr p" by (subst scan.simps) simp
    with Some True show ?thesis by (simp add: cstr_def Let_def slice_def toString_def)
  next
    case False
    with Some have "scan (buf p) (ptr p) = scan (buf p) (ptr p + 1)" by (subst scan.simps) simp
    with scan_ge [of "ptr p + 1" "buf p"] have "ptr p < scan (buf p) (ptr p)" by simp
    with inside have "slice (buf p) (ptr p) (scan (buf p) (ptr p)) \<noteq> []"
      by (simp add: slice_def)
    with Some False show ?thesis by (simp add: cstr_def Let_def toString_def)
  qed
qed

subsection \<open>Requests that init rejects\<close>

text \<open>
  Claim C10, as the code has it. A request of fewer than two bytes makes the opcode
  read of init throw a RangeError: init itself chooses no TFTP error. The exception
  ends the connection through the final handler, which sends one ERROR datagram with
  the text of the exception and, that text being none of the seven mapped messages,
  the code 0. With two bytes or more init does not throw: it ends by calling \<open>next\<close>.
\<close>

theorem init_short_request:
  assumes "request c = Some r" and "getErrorCode (message_of RangeError) = 0"
  shows "(length r < 2 \<longrightarrow>
            init c = Inl (RangeError, c\<lparr>request := None\<rparr>) \<and>
            goto message_of routes (State Init) c =
              ((c\<lparr>request := None\<rparr>, Ended),
               [Out (clientKey c) ([0, 5, 0, 0] @ bytes_of (message_of RangeError) @ [0])])) \<and>
         (2 \<le> length r \<longrightarrow> (\<exists>c' a. init c = Inr (c', [], Next a)))"
proof (intro conjI impI)
  assume short: "length r < 2"
  then have "readUInt16BE r 0 = Inl RangeError"
    by (simp add: readUInt16BE_short)
  with assms(1) show i: "init c = Inl (RangeError, c\<lparr>request := None\<rparr>)"
    by (simp add: init_def uint16_def)
  then show "goto message_of routes (State Init) c =
      ((c\<lparr>request := None\<rparr>, Ended),
       [Out (clientKey c) ([0, 5, 0, 0] @ bytes_of (message_of RangeError) @ [0])])"
    using assms(2)
    by (simp add: goto.simps [of message_of routes "State Init" c] handler_of_def finish_error)
next
  assume "2 \<le> length r"
  then obtain v where "readUInt16BE r 0 = Inr v"
    using readUInt16BE_long [of 0 r] by auto
  with assms(1) show "\<exists>c' a. init c = Inr (c', [], Next a)"
    by (auto simp: init_def uint16_def Let_def split: prod.splits)
qed

theorem init_short_request_witness:
  "init (new_ctx ''client'' [0]) = Inl (RangeError, (new_ctx ''client'' [0])\<lparr>request := None\<rparr>) \<and>
   goto sample_text [] (State Init) (new_ctx ''client'' [0]) =
     (((new_ctx ''client'' [0])\<lparr>request := None\<rparr>, Ended),
      [Out ''client'' ([0, 5, 0, 0] @ bytes_of ''out of range'' @ [0])]) \<and>
   (\<exists>c' a. init (new_ctx ''client'' [0, 1, 0x66, 0]) = Inr (c', [], Next a))"
proof -
  have g: "getErrorCode (sample_text RangeError) = 0"
    by (simp add: sample_text_def getErrorCode_def)
  have "request (new_ctx ''client'' [0]) = Some [0]"
    and "request (new_ctx ''client'' [0, 1, 0x66, 0]) = Some [0, 1, 0x66, 0]"
    by (simp_all add: new_ctx_def)
  from init_short_request [where message_of = sample_text and routes = "[]", OF this(1) g]
    init_short_request [where message_of = sample_text and routes = "[]", OF this(2) g]
  show ?thesis by (simp add: new_ctx_def sample_text_def)
qed

text \<open>The claim as stated, an exception rather than any ERROR datagram, fails for the
  request of the one byte 0: the connection ends with an ERROR datagram of code 0.\<close>

theorem init_short_request_counterexample:
  "snd (fst (goto sample_text [] (State Init) (new_ctx ''client'' [0]))) = Ended \<and>
   map error_code (snd (goto sample_text [] (State Init) (new_ctx ''client'' [0]))) = [Some 0]"
proof -
  have "readUInt16BE [0] 0 = Inl RangeError"
    by (simp add: readUInt16BE_short)
  then have "init (new_ctx ''client'' [0]) =
      Inl (RangeError, (new_ctx ''client'' [0])\<lparr>request := None\<rparr>)"
    by (simp add: init_def uint16_def new_ctx_def)
  moreover have "getErrorCode (sample_text RangeError) = 0"
    by (simp add: getErrorCode_def sample_text_def)
  ultimately show ?thesis
    by (simp add: goto.simps [of sample_text "[]" "State Init"] handler_of_def finish_error
        error_code_header)
qed

text \<open>
  Claim C7. A request whose opcode is not 1 ends the connection with exactly one
  datagram, the ERROR packet with code 4 and the message ``Illegal TFTP operation.'';
  the trace has no handler call, whatever the routes are.
\<close>

theorem init_illegal_operation:
  assumes "request c = Some r" and "readUInt16BE r 0 = Inr opcode" and "opcode \<noteq> 1"
  shows "goto message_of routes (State Init) c =
           ((c\<lparr>request := None\<rparr>, Ended),
            [Out (clientKey c) ([0, 5, 0, 4] @ bytes_of ''Illegal TFTP operation.'' @ [0])])"
proof -
  from assms have "init c = Inr (c\<lparr>request := None\<rparr>, [], Next (Error ''Illegal TFTP operation.''))"
    by (simp add: init_def uint16_def)
  moreover have "getErrorCode ''Illegal TFTP operation.'' = 4"
    by (simp add: getErrorCode_def)
  ultimately show ?thesis
    by (simp add: goto.simps [of message_of routes "State Init" c] handler_of_def goto_Error finish_error)
qed

theorem init_illegal_operation_witness:
  "goto sample_text [] (State Init) (new_ctx ''client'' [0, 2, 0x66, 0]) =
     ((new_ctx ''client'' [0, 2, 0x66, 0]\<lparr>request := None\<rparr>, Ended),
      [Out ''client'' ([0, 5, 0, 4] @ bytes_of ''Illegal TFTP operation.'' @ [0])])"
  using init_illegal_operation [of "new_ctx ''client'' [0, 2, 0x66, 0]" "[0, 2, 0x66, 0]" 2 sample_text "[]"]
  by (simp add: new_ctx_def readUInt16BE_def buf_at_def)

text \<open>
  Claim C8. A read request whose filename, as \<open>cstr\<close> reads it after the opcode, is
  empty (the request ends there or a zero byte follows) ends the connection with
  exactly one datagram, the ERROR packet with code 1 and the message
  ``File not found.''; the routes are not consulted.
\<close>

theorem init_empty_filename:
  assumes "request c = Some r" and "readUInt16BE r 0 = Inr 1"
    and "fst (cstr \<lparr>buf = r, ptr = 2\<rparr>) = []"
  shows "goto message_of routes (State Init) c =
           ((c\<lparr>request := None, filename := []\<rparr>, Ended),
            [Out (clientKey c) ([0, 5, 0, 1] @ bytes_of ''File not found.'' @ [0])])"
proof -
  obtain p2 where "cstr \<lparr>buf = r, ptr = 2\<rparr> = ([], p2)"
    using assms(3) by (cases "cstr \<lparr>buf = r, ptr = 2\<rparr>") simp
  then have "cstr \<lparr>buf = r, ptr = Suc (Suc 0)\<rparr> = ([], p2)"
    by (simp add: numeral_2_eq_2)
  with assms(1,2) have "init c = Inr (c\<lparr>request := None, filename := []\<rparr>, [], Next (Error ''File not found.''))"
    by (simp add: init_def uint16_def Let_def)
  moreover have "getErrorCode ''File not found.'' = 1"
    by (simp add: getErrorCode_def)
  ultimately show ?thesis
    by (simp add: goto.simps [of message_of routes "State Init" c] handler_of_def goto_Error finish_error)
qed

theorem init_empty_filename_witness:
  "goto sample_text [] (State Init) (new_ctx ''client'' [0, 1, 0, 0x66, 0]) =
     ((new_ctx ''client'' [0, 1, 0, 0x66, 0]\<lparr>request := None, filename := []\<rparr>, Ended),
      [Out ''client'' ([0, 5, 0, 1] @ bytes_of ''File not found.'' @ [0])])"
  using init_empty_filename [of "new_ctx ''client'' [0, 1, 0, 0x66, 0]" "[0, 1, 0, 0x66, 0]" sample_text "[]"]
  by (simp add: new_ctx_def readUInt16BE_def buf_at_def cstr_def scan.simps slice_def toString_def)

subsection \<open>The ERROR datagram\<close>

text \<open>
  Claim C4, as the code has it. The final handler allocates five bytes more than the
  message is long, so the ERROR datagram of an ASCII message is the opcode 5, the
  mapped error code, the message bytes and one terminating zero byte: its length is
  5 plus the length of the message.
\<close>

theorem final_error_datagram:
  assumes "ascii message"
  shows "\<exists>pkt. final c (Some message) = Inr [Out (clientKey c) pkt] \<and>
           pkt = [0, 5, 0, of_nat (getErrorCode message)] @ bytes_of message @ [0] \<and>
           length pkt = 5 + length message"
  by (simp add: final_error bytes_of_def)

theorem final_error_datagram_witness:
  "ascii ''File not found.'' \<and>
   (\<exists>pkt. final (new_ctx ''client'' []) (Some ''File not found.'') = Inr [Out ''client'' pkt] \<and>
          pkt = [0, 5, 0, 1] @ bytes_of ''File not found.'' @ [0] \<and> length pkt = 20)"
proof -
  have a: "ascii ''File not found.''" by (simp add: ascii_def)
  have g: "getErrorCode ''File not found.'' = 1" by (simp add: getErrorCode_def)
  show ?thesis
    using a final_error_datagram [OF a, of "new_ctx ''client'' []"] g
    by (simp add: new_ctx_def)
qed

text \<open>The claim as stated, with a length of 4 plus the message and no terminator,
  fails for ``File not found.'': the datagram has 20 bytes and ends with a zero.\<close>

theorem final_error_length_counterexample:
  "final (new_ctx ''client'' []) (Some ''File not found.'') =
     Inr [Out ''client'' [0, 5, 0, 1, 0x46, 0x69, 0x6c, 0x65, 0x20, 0x6e, 0x6f, 0x74, 0x20,
                          0x66, 0x6f, 0x75, 0x6e, 0x64, 0x2e, 0]] \<and>
   length [0, 5, 0, 1, 0x46, 0x69, 0x6c, 0x65, 0x20, 0x6e, 0x6f, 0x74, 0x20,
           0x66, 0x6f, 0x75, 0x6e, 0x64, 0x2e, 0 :: byte] \<noteq> 4 + length ''File not found.''"
  by (simp add: final_error getErrorCode_def new_ctx_def bytes_of_def)

subsection \<open>The option loop of init terminates\<close>

lemma scan_passes:
  "i \<le> j \<Longrightarrow> j < scan b i \<Longrightarrow> \<exists>x. buf_at b j = Some x \<and> x \<noteq> 0"
proof (induction b i rule: scan.induct)
  case (1 b i)
  show ?case
  proof (cases "buf_at b i")
    case None
    with "1.prems" show ?thesis by (simp add: scan.simps [of b i])
  next
    case (Some x)
    show ?thesis
    proof (cases "x = 0")
      case True
      with Some "1.prems" show ?thesis by (simp add: scan.simps [of b i])
    next
      case False
      show ?thesis
      proof (cases "j = i")
        case True
        with Some False show ?thesis by simp
      next
        case ne: False
        with "1.prems" have "i + 1 \<le> j" by simp
        moreover from Some False "1.prems" have "j < scan b (i + 1)"
          by (simp add: scan.simps [of b i])
        ultimately show ?thesis using "1.IH" [OF Some False] by simp
      qed
    qed
  qed
qed

lemma scan_inside:
  assumes "i \<le> j" and "j < scan b i"
  shows "j < length b \<and> b ! j \<noteq> 0"
proof -
  from scan_passes [OF assms] obtain x where "buf_at b j = Some x" and "x \<noteq> 0"
    by blast
  then show ?thesis by (auto simp: buf_at_def split: if_splits)
qed

lemma scan_stops: "buf_at b (scan b i) = None \<or> buf_at b (scan b i) = Some 0"
proof (induction b i rule: scan.induct)
  case (1 b i)
  show ?case
  proof (cases "buf_at b i")
    case None
    then show ?thesis by (simp add: scan.simps [of b i])
  next
    case (Some x)
    with 1 show ?thesis
      by (cases "x = 0") (auto simp: scan.simps [of b i])
  qed
qed

lemma scan_le: "scan b i \<le> max i (length b)"
proof (cases "i < scan b i")
  case True
  then have "i \<le> scan b i - 1" and "scan b i - 1 < scan b i" by simp_all
  then have "scan b i - 1 < length b"
    using scan_inside [of i "scan b i - 1" b] by blast
  then show ?thesis by simp
next
  case False
  with scan_ge [of i b] show ?thesis by simp
qed

lemma parseOptions_iterates:
  "\<exists>n \<le> length (buf (fst s)) + 1 - ptr (fst s).
      parseOptions s = (optionStep ^^ n) s \<and>
      endReached (fst ((optionStep ^^ n) s)) \<and>
      (\<forall>k<n. \<not> endReached (fst ((optionStep ^^ k) s)))"
proof (induction s rule: parseOptions.induct)
  case (1 s)
  show ?case
  proof (cases "endReached (fst s)")
    case True
    then have "parseOptions s = (optionStep ^^ 0) s \<and>
        endReached (fst ((optionStep ^^ 0) s)) \<and>
        (\<forall>k<0. \<not> endReached (fst ((optionStep ^^ k) s)))"
      by (simp add: parseOptions.simps [of s])
    then show ?thesis by blast
  next
    case False
    let ?t = "optionStep s"
    from "1.IH" [OF False] obtain n where
      n: "n \<le> length (buf (fst ?t)) + 1 - ptr (fst ?t)"
      and eq: "parseOptions ?t = (optionStep ^^ n) ?t"
      and fin: "endReached (fst ((optionStep ^^ n) ?t))"
      and before: "\<forall>k<n. \<not> endReached (fst ((optionStep ^^ k) ?t))"
      by blast
    from False have inside: "ptr (fst s) \<le> length (buf (fst s))"
      by (simp add: endReached_def)
    have bound: "Suc n \<le> length (buf (fst s)) + 1 - ptr (fst s)"
      using n inside optionStep_ptr [of s] optionStep_buf [of s] by simp
    have shift: "(optionStep ^^ Suc k) s = (optionStep ^^ k) ?t" for k
      by (simp add: funpow_swap1)
    have "parseOptions s = (optionStep ^^ Suc n) s"
      using False eq by (simp add: parseOptions.simps [of s] funpow_swap1)
    moreover have "endReached (fst ((optionStep ^^ Suc n) s))"
      using fin by (simp add: funpow_swap1)
    moreover have "\<forall>k<Suc n. \<not> endReached (fst ((optionStep ^^ k) s))"
    proof (intro allI impI)
      fix k assume "k < Suc n"
      show "\<not> endReached (fst ((optionStep ^^ k) s))"
      proof (cases k)
        case 0
        with False show ?thesis by simp
      next
        case (Suc j)
        with \<open>k < Suc n\<close> before have "\<not> endReached (fst ((optionStep ^^ j) ?t))" by simp
        with Suc show ?thesis by (simp add: funpow_swap1)
      qed
    qed
    ultimately show ?thesis using bound by blast
  qed
qed

text \<open>
  Claim C9. Every call of \<open>cstr\<close> moves the cursor forward by at least one byte.
  Its scan passes only over non-zero bytes inside the buffer and stops at the buffer
  end at the latest, unless the cursor was already beyond it. The option loop of init
  therefore leaves after a bounded number of rounds, at most one more than the bytes
  left, and \<open>endReached\<close> holds then and in no round before.
\<close>

theorem option_loop_terminates:
  "ptr p < ptr (snd (cstr p)) \<and>
   scan (buf p) (ptr p) \<le> max (ptr p) (length (buf p)) \<and>
   (\<forall>i. ptr p \<le> i \<and> i < scan (buf p) (ptr p) \<longrightarrow>
        i < length (buf p) \<and> buf p ! i \<noteq> 0) \<and>
   (\<exists>n \<le> length (buf p) + 1 - ptr p.
      parseOptions (p, m) = (optionStep ^^ n) (p, m) \<and>
      endReached (fst ((optionStep ^^ n) (p, m))) \<and>
      (\<forall>k<n. \<not> endReached (fst ((optionStep ^^ k) (p, m)))))"
proof (intro conjI)
  show "ptr p < ptr (snd (cstr p))"
    using scan_ge [of "ptr p" "buf p"] by (simp add: cstr_ptr)
  show "scan (buf p) (ptr p) \<le> max (ptr p) (length (buf p))"
    by (rule scan_le)
  show "\<forall>i. ptr p \<le> i \<and> i < scan (buf p) (ptr p) \<longrightarrow> i < length (buf p) \<and> buf p ! i \<noteq> 0"
    using scan_inside [of "ptr p" _ "buf p"] by blast
  show "\<exists>n \<le> length (buf p) + 1 - ptr p.
      parseOptions (p, m) = (optionStep ^^ n) (p, m) \<and>
      endReached (fst ((optionStep ^^ n) (p, m))) \<and>
      (\<forall>k<n. \<not> endReached (fst ((optionStep ^^ k) (p, m))))"
    using parseOptions_iterates [of "(p, m)"] by simp
qed

theorem option_loop_terminates_witness:
  "endReached (fst (parseOptions (\<lparr>buf = [0, 1, 0x66, 0, 0x6f, 0, 0x61, 0, 0x62], ptr = 6\<rparr>, [])))"
proof -
  let ?p = "\<lparr>buf = [0, 1, 0x66, 0, 0x6f, 0, 0x61, 0, 0x62 :: byte], ptr = 6\<rparr>"
  from option_loop_terminates [of ?p "[]"] obtain n where
    "parseOptions (?p, []) = (optionStep ^^ n) (?p, [])"
    "endReached (fst ((optionStep ^^ n) (?p, [])))"
    by blast
  then show ?thesis by simp
qed

subsection \<open>Waiting for an acknowledgement\<close>

lemma run_Ended: "run message_of routes (c, Ended) evs = ((c, Ended), [])"
  by (induction evs) (simp_all add: step_def)

lemma sendDataPacket_listener_try [simp]:
  "sendDataPacket_listener (c\<lparr>try_no := t\<rparr>) msg = sendDataPacket_listener c msg"
  by (simp add: sendDataPacket_listener_def split: sum.splits)

lemma goto_sendDataPacket:
  "goto message_of routes (State SendDataPacket) c =
     (if try_no c > 3 then ((c\<lparr>try_no := try_no c + 1\<rparr>, Ended), [])
      else ((c\<lparr>try_no := try_no c + 1\<rparr>, Waiting SendDataPacket 1000 (State SendDataPacket)),
            [Out (clientKey c) (packet c)]))"
  by (simp add: goto.simps [of message_of routes "State SendDataPacket" c] handler_of_def
      sendDataPacket_def Let_def goto_Null finish_null)

lemma retransmit_run:
  assumes "\<forall>ev\<in>set evs. silent c ev" and "t \<le> 4"
  shows "run message_of routes (c\<lparr>try_no := t\<rparr>, Waiting SendDataPacket 1000 (State SendDataPacket)) evs =
     (if timeouts evs + t \<le> 4
      then ((c\<lparr>try_no := t + timeouts evs\<rparr>, Waiting SendDataPacket 1000 (State SendDataPacket)),
            replicate (timeouts evs) (Out (clientKey c) (packet c)))
      else ((c\<lparr>try_no := 5\<rparr>, Ended), replicate (4 - t) (Out (clientKey c) (packet c))))"
  using assms
proof (induction evs arbitrary: t)
  case Nil
  then show ?case by (simp add: timeouts_def)
next
  case (Cons ev evs)
  from Cons.prems have rest: "\<forall>ev\<in>set evs. silent c ev" by simp
  show ?case
  proof (cases ev)
    case (Datagram msg)
    with Cons.prems have "sendDataPacket_listener c msg = Inr None"
      by (simp add: silent_def)
    then have "step message_of routes (c\<lparr>try_no := t\<rparr>, Waiting SendDataPacket 1000 (State SendDataPacket)) ev
        = ((c\<lparr>try_no := t\<rparr>, Waiting SendDataPacket 1000 (State SendDataPacket)), [])"
      by (simp add: step_def Datagram listener_of_def)
    moreover have "timeouts (ev # evs) = timeouts evs"
      by (simp add: timeouts_def Datagram)
    ultimately show ?thesis
      using Cons.IH [OF rest Cons.prems(2)] by simp
  next
    case Timeout
    have n: "timeouts (ev # evs) = Suc (timeouts evs)"
      by (simp add: timeouts_def Timeout)
    show ?thesis
    proof (cases "t > 3")
      case True
      with Cons.prems(2) have t4: "t = 4" by simp
      have "step message_of routes (c\<lparr>try_no := t\<rparr>, Waiting SendDataPacket 1000 (State SendDataPacket)) ev
          = ((c\<lparr>try_no := 5\<rparr>, Ended), [])"
        by (simp add: step_def Timeout goto_sendDataPacket t4)
      then show ?thesis
        by (simp add: run_Ended n t4)
    next
      case False
      then have "Suc t \<le> 4" by simp
      from False have "step message_of routes (c\<lparr>try_no := t\<rparr>, Waiting SendDataPacket 1000 (State SendDataPacket)) ev
          = ((c\<lparr>try_no := Suc t\<rparr>, Waiting SendDataPacket 1000 (State SendDataPacket)),
             [Out (clientKey c) (packet c)])"
        by (simp add: step_def Timeout goto_sendDataPacket)
      then show ?thesis
        using Cons.IH [OF rest \<open>Suc t \<le> 4\<close>] False
        by (auto simp: n replicate_Suc [symmetric] Suc_diff_le simp del: replicate_Suc)
    qed
  qed
qed


lemma prepareDataPacket_result:
  assumes "prepareDataPacket c = Inr (c1, fx, out)"
  shows "fx = [] \<and> out = Next (State SendDataPacket) \<and> try_no c1 = 0 \<and>
         block c1 = block c + 1 \<and> clientKey c1 = clientKey c \<and> block c < 65535"
  using assms
  by (auto simp: prepareDataPacket_def Let_def writeUInt16BE_def alloc_def
      split: sum.splits if_splits)

lemma write_header_3: "writeUInt16BE 3 0 (alloc 4) = Inr [0, 3, 0, 0]"
  using alloc_4 [of 0] by (simp add: writeUInt16BE_def)

lemma write_block_no:
  "writeUInt16BE v 2 [0, 3, 0, 0] =
     (if v < 65536 then Inr [0, 3, of_nat (v div 256), of_nat (v mod 256)] else Inl RangeError)"
  by (simp add: writeUInt16BE_def numeral_2_eq_2 numeral_3_eq_3)

lemma prepareDataPacket_eq:
  "prepareDataPacket c =
     (if block c < 65535
      then Inr (c\<lparr>packet := dataPacket c, block := block c + 1, try_no := 0\<rparr>, [],
                Next (State SendDataPacket))
      else Inl (RangeError, c))"
  by (simp add: prepareDataPacket_def write_header_3 write_block_no dataPacket_def Let_def)

lemma readUInt16BE_4: "readUInt16BE [a, b, c, d] 0 = Inr (256 * unat a + unat b) \<and>
   readUInt16BE [a, b, c, d] 2 = Inr (256 * unat c + unat d)"
  by (simp add: readUInt16BE_def buf_at_def numeral_2_eq_2)

text \<open>
  Claim C2. After prepareDataPacket has built a block, and as long as only timeouts
  and ignored datagrams arrive, sendDataPacket sends the same packet once on entry and
  once more on each of the first three timeouts; the fourth timeout ends the
  connection through \<open>next(null)\<close>. Four identical DATA datagrams are all that is
  sent: no ERROR datagram.
\<close>

theorem data_retransmission_bound:
  assumes "prepareDataPacket c = Inr (c1, fx, out)"
    and "\<forall>ev\<in>set evs. silent c1 ev"
  shows "run_from message_of routes (State PrepareDataPacket) c evs =
     (if timeouts evs < 4
      then ((c1\<lparr>try_no := 1 + timeouts evs\<rparr>,
             Waiting SendDataPacket 1000 (State SendDataPacket)),
            replicate (1 + timeouts evs) (Out (clientKey c) (packet c1)))
      else ((c1\<lparr>try_no := 5\<rparr>, Ended), replicate 4 (Out (clientKey c) (packet c1))))"
proof -
  from prepareDataPacket_result [OF assms(1)]
  have r: "fx = []" "out = Next (State SendDataPacket)" "try_no c1 = 0"
    "clientKey c1 = clientKey c"
    by simp_all
  have enter: "goto message_of routes (State PrepareDataPacket) c =
      ((c1\<lparr>try_no := 1\<rparr>, Waiting SendDataPacket 1000 (State SendDataPacket)),
       [Out (clientKey c) (packet c1)])"
    using assms(1) r
    by (simp add: goto.simps [of message_of routes "State PrepareDataPacket" c] handler_of_def
        goto_sendDataPacket)
  have "(1::nat) \<le> 4" by simp
  from retransmit_run [OF assms(2) this, where message_of = message_of and routes = routes] enter r(4)
  show ?thesis
    by (auto simp: run_from_def replicate_Suc [symmetric] simp del: replicate_Suc)
qed

theorem data_retransmission_bound_witness:
  "prepareDataPacket (transfer_ctx [1, 2] 512) =
     Inr ((transfer_ctx [1, 2] 512)\<lparr>packet := [0, 3, 0, 1, 1, 2], block := 1, try_no := 0\<rparr>,
          [], Next (State SendDataPacket)) \<and>
   run_from sample_text [] (State PrepareDataPacket) (transfer_ctx [1, 2] 512)
       [Timeout, Datagram [0, 4, 0, 7], Timeout, Timeout, Datagram [0, 5, 0, 0], Timeout] =
     (((transfer_ctx [1, 2] 512)\<lparr>packet := [0, 3, 0, 1, 1, 2], block := 1, try_no := 5\<rparr>, Ended),
      replicate 4 (Out ''client'' [0, 3, 0, 1, 1, 2]))"
proof -
  let ?c = "transfer_ctx [1, 2] 512"
  let ?c1 = "?c\<lparr>packet := [0, 3, 0, 1, 1, 2], block := 1, try_no := 0\<rparr>"
  let ?evs = "[Timeout, Datagram [0, 4, 0, 7], Timeout, Timeout, Datagram [0, 5, 0, 0], Timeout]"
  have p: "prepareDataPacket ?c = Inr (?c1, [], Next (State SendDataPacket))"
    by (simp add: prepareDataPacket_eq dataPacket_def transfer_ctx_def new_ctx_def
        js_slice_def sliceIndex_def slice_def)
  have q: "\<forall>ev\<in>set ?evs. silent ?c1 ev"
    by (simp add: silent_def sendDataPacket_listener_def readUInt16BE_4 transfer_ctx_def new_ctx_def)
  have n: "timeouts ?evs = 4" by (simp add: timeouts_def)
  from data_retransmission_bound [OF p q, where message_of = sample_text and routes = "[]"] n p show ?thesis
    by (simp add: transfer_ctx_def new_ctx_def)
qed

text \<open>
  Claim C3. A connection waits in oack for the acknowledgement of block 0 and in
  sendDataPacket for the acknowledgement of \<open>ctx.block\<close>. A datagram with another
  opcode than 4, or with opcode 4 and another block number, changes nothing: the
  context with its retry counter, the state waited in and the pending timeout stay as
  they are and nothing is sent. The matching acknowledgement that follows is handled as
  if it had come first.
\<close>

theorem mismatched_datagram_ignored:
  assumes "snd cfg = Waiting s ms target"
    and "s = Oack \<and> expected = 0 \<or> s = SendDataPacket \<and> expected = block (fst cfg)"
    and "readUInt16BE msg 0 = Inr opcode"
    and "opcode \<noteq> 4 \<or> (\<exists>blk. readUInt16BE msg 2 = Inr blk \<and> blk \<noteq> expected)"
    and "readUInt16BE accepted 0 = Inr 4" and "readUInt16BE accepted 2 = Inr expected"
  shows "step message_of routes cfg (Datagram msg) = (cfg, []) \<and>
         run message_of routes cfg [Datagram msg, Datagram accepted] =
           goto message_of routes
             (if s = SendDataPacket \<and>
                 js_neq (Num (int (length (packet (fst cfg))))) (js_add (blocksize (fst cfg)) (Num 4))
              then Null else State PrepareDataPacket)
             (fst cfg)"
proof -
  have ign: "listener_of s (fst cfg) msg = Inr None"
    using assms(2,3,4)
    by (auto simp: listener_of_def oack_listener_def sendDataPacket_listener_def)
  then have st: "step message_of routes cfg (Datagram msg) = (cfg, [])"
    using assms(1) by (simp add: step_def)
  have "listener_of s (fst cfg) accepted =
      Inr (Some (if s = SendDataPacket \<and>
                 js_neq (Num (int (length (packet (fst cfg))))) (js_add (blocksize (fst cfg)) (Num 4))
              then Null else State PrepareDataPacket))"
    using assms(2,5,6)
    by (auto simp: listener_of_def oack_listener_def sendDataPacket_listener_def)
  then have "step message_of routes cfg (Datagram accepted) =
      goto message_of routes
             (if s = SendDataPacket \<and>
                 js_neq (Num (int (length (packet (fst cfg))))) (js_add (blocksize (fst cfg)) (Num 4))
              then Null else State PrepareDataPacket)
             (fst cfg)"
    using assms(1) by (simp add: step_def)
  with st show ?thesis by (simp split: prod.splits)
qed

theorem mismatched_datagram_ignored_witness:
  "step sample_text [] ((transfer_ctx [1, 2] 512)\<lparr>block := 1, packet := [0, 3, 0, 1, 1, 2]\<rparr>,
            Waiting SendDataPacket 1000 (State SendDataPacket)) (Datagram [0, 4, 0, 2]) =
     (((transfer_ctx [1, 2] 512)\<lparr>block := 1, packet := [0, 3, 0, 1, 1, 2]\<rparr>,
            Waiting SendDataPacket 1000 (State SendDataPacket)), []) \<and>
   run sample_text [] ((transfer_ctx [1, 2] 512)\<lparr>block := 1, packet := [0, 3, 0, 1, 1, 2]\<rparr>,
            Waiting SendDataPacket 1000 (State SendDataPacket))
       [Datagram [0, 4, 0, 2], Datagram [0, 4, 0, 1]] =
     (((transfer_ctx [1, 2] 512)\<lparr>block := 1, packet := [0, 3, 0, 1, 1, 2]\<rparr>, Ended), []) \<and>
   step sample_text [] (transfer_ctx [1, 2] 512, Waiting Oack 1000 (State Oack)) (Datagram [0, 3, 0, 0]) =
     ((transfer_ctx [1, 2] 512, Waiting Oack 1000 (State Oack)), [])"
  using mismatched_datagram_ignored
      [of "((transfer_ctx [1, 2] 512)\<lparr>block := 1, packet := [0, 3, 0, 1, 1, 2]\<rparr>,
            Waiting SendDataPacket 1000 (State SendDataPacket))"
          SendDataPacket 1000 "State SendDataPacket" 1 "[0, 4, 0, 2]" 4 "[0, 4, 0, 1]" sample_text "[]"]
    mismatched_datagram_ignored
      [of "(transfer_ctx [1, 2] 512, Waiting Oack 1000 (State Oack))"
          Oack 1000 "State Oack" 0 "[0, 3, 0, 0]" 3 "[0, 4, 0, 0]" sample_text "[]"]
  by (simp add: readUInt16BE_4 transfer_ctx_def new_ctx_def goto_Null finish_null del: run.simps)

subsection \<open>Option negotiation\<close>

lemma oack_option_blksize:
  "oack_option c (''blksize'', v) =
     (c\<lparr>blocksize := Math_min (toNumber v) (Num 1428)\<rparr>,
      bytes_of (''blksize'' @ [CHR 0x00] @ String (Math_min (toNumber v) (Num 1428)) @ [CHR 0x00]))"
  by (simp add: oack_option_def Let_def buf_write_alloc)

lemma oack_option_other:
  "k \<noteq> ''blksize'' \<Longrightarrow> fst (oack_option c (k, v)) = c"
  by (simp add: oack_option_def Let_def)

lemma oack_options_keep:
  "''blksize'' \<notin> fst ` set os \<Longrightarrow> fst (oack_options c os) = c"
proof (induction os arbitrary: c)
  case Nil
  then show ?case by simp
next
  case (Cons kv os)
  obtain k v where kv: "kv = (k, v)" by (cases kv)
  with Cons.prems have "k \<noteq> ''blksize''" by auto
  then have "fst (oack_option c kv) = c" by (simp add: kv oack_option_other)
  moreover from Cons.prems have "''blksize'' \<notin> fst ` set os" by simp
  ultimately show ?case
    using Cons.IH [of c] by (simp add: split_beta)
qed

lemma oack_options_blksize:
  assumes "distinct (map fst os)" and "(''blksize'', v) \<in> set os"
  shows "\<exists>pre post.
           oack_options c os =
             (c\<lparr>blocksize := Math_min (toNumber v) (Num 1428)\<rparr>, pre) \<and>
           concat pre = fst post @
             bytes_of (''blksize'' @ [CHR 0x00] @ String (Math_min (toNumber v) (Num 1428)) @ [CHR 0x00])
             @ snd post"
  using assms
proof (induction os arbitrary: c)
  case Nil
  then show ?case by simp
next
  case (Cons kv os)
  obtain k w where kv: "kv = (k, w)" by (cases kv)
  show ?case
  proof (cases "k = ''blksize''")
    case True
    with Cons.prems kv have w: "w = v" and rest: "''blksize'' \<notin> fst ` set os"
      by (auto simp: image_iff)
    obtain bs where bs: "snd (oack_options (c\<lparr>blocksize := Math_min (toNumber v) (Num 1428)\<rparr>) os) = bs"
      by simp
    have "oack_options c (kv # os) =
        (c\<lparr>blocksize := Math_min (toNumber v) (Num 1428)\<rparr>,
         bytes_of (''blksize'' @ [CHR 0x00] @ String (Math_min (toNumber v) (Num 1428)) @ [CHR 0x00]) # bs)"
      using oack_options_keep [OF rest, of "c\<lparr>blocksize := Math_min (toNumber v) (Num 1428)\<rparr>"] bs
      by (simp add: kv True w oack_option_blksize split_beta prod_eq_iff)
    moreover have "concat (bytes_of (''blksize'' @ [CHR 0x00] @ String (Math_min (toNumber v) (Num 1428)) @ [CHR 0x00]) # bs)
        = fst ([], concat bs) @ bytes_of (''blksize'' @ [CHR 0x00] @ String (Math_min (toNumber v) (Num 1428)) @ [CHR 0x00]) @ snd ([], concat bs)"
      by simp
    ultimately show ?thesis by blast
  next
    case False
    with Cons.prems kv have d: "distinct (map fst os)" and m: "(''blksize'', v) \<in> set os"
      by auto
    have keep: "fst (oack_option c kv) = c"
      using False by (simp add: kv oack_option_other)
    from Cons.IH [OF d m, of c] obtain pre post where
      o: "oack_options c os = (c\<lparr>blocksize := Math_min (toNumber v) (Num 1428)\<rparr>, pre)"
      and cc: "concat pre = fst post @
             bytes_of (''blksize'' @ [CHR 0x00] @ String (Math_min (toNumber v) (Num 1428)) @ [CHR 0x00])
             @ snd post"
      by blast
    have "oack_options c (kv # os) =
        (c\<lparr>blocksize := Math_min (toNumber v) (Num 1428)\<rparr>, snd (oack_option c kv) # pre)"
      using keep o by (simp add: split_beta prod_eq_iff)
    moreover have "concat (snd (oack_option c kv) # pre) =
        fst (snd (oack_option c kv) @ fst post, snd post) @
        bytes_of (''blksize'' @ [CHR 0x00] @ String (Math_min (toNumber v) (Num 1428)) @ [CHR 0x00]) @
        snd (snd (oack_option c kv) @ fst post, snd post)"
      using cc by simp
    ultimately show ?thesis by blast
  qed
qed


lemma write_header_6: "writeUInt16BE 6 0 (alloc 2) = Inr [0, 6]"
  by (simp add: writeUInt16BE_def alloc_def numeral_2_eq_2)

lemma goto_prepareDataPacket:
  "goto message_of routes (State PrepareDataPacket) c =
     (if block c < 65535
      then ((c\<lparr>packet := dataPacket c, block := block c + 1, try_no := 1\<rparr>,
             Waiting SendDataPacket 1000 (State SendDataPacket)),
            [Out (clientKey c) (dataPacket c)])
      else finish c (Some (message_of RangeError)))"
  by (simp add: goto.simps [of message_of routes "State PrepareDataPacket" c] handler_of_def
      prepareDataPacket_eq goto_sendDataPacket)

lemma decimal_1428: "decimal 1428 = ''1428''" and decimal_100: "decimal 100 = ''100''"
  by code_simp+

text \<open>
  Claim C5. When the options hold \<open>blksize\<close> with a decimal value, oack sends an OACK
  that carries \<open>blksize\<close>, a zero byte, the decimal text of the minimum of the value
  and 1428 and a zero byte, and it sets \<open>ctx.blocksize\<close> to that minimum. The block
  size is effective: once the OACK is acknowledged, the first DATA packet carries that
  many bytes of the data. A request of 2000 yields 1428, a request of 100 yields 100.
\<close>

theorem blksize_negotiation:
  assumes "try_no c \<le> 3" and "block c = 0"
    and "distinct (map fst (options c))"
    and "(''blksize'', v) \<in> set (options c)"
    and "list_all isDigit v"
  shows "\<exists>c' before after.
           oack c =
             Inr (c', [Out (clientKey c)
                        ([0, 6] @ before @
                         bytes_of (''blksize'' @ [CHR 0x00] @
                                   decimal (min (digitsValue v) 1428) @ [CHR 0x00]) @
                         after)],
                  Wait 1000 (State Oack)) \<and>
           blocksize c' = Num (int (min (digitsValue v) 1428)) \<and>
           snd (step message_of routes (c', Waiting Oack 1000 (State Oack)) (Datagram [0, 4, 0, 0])) =
             [Out (clientKey c) ([0, 3, 0, 1] @ take (min (digitsValue v) 1428) (data c))]"
proof -
  let ?a = "min (digitsValue v) 1428"
  let ?c1 = "c\<lparr>try_no := try_no c + 1\<rparr>"
  have num: "Math_min (toNumber v) (Num 1428) = Num (int ?a)"
    using assms(5) by (simp add: toNumber_def min_def)
  have str: "String (Math_min (toNumber v) (Num 1428)) = decimal ?a"
    by (simp add: num)
  from assms(4) have ne: "options c \<noteq> []" by auto
  from oack_options_blksize [of "options c" v ?c1] assms(3,4) obtain pre post where
    o: "oack_options ?c1 (options c) = (?c1\<lparr>blocksize := Num (int ?a)\<rparr>, pre)"
    and cc: "concat pre = fst post @
        bytes_of (''blksize'' @ [CHR 0x00] @ decimal ?a @ [CHR 0x00]) @ snd post"
    unfolding num str by auto
  let ?c' = "?c1\<lparr>blocksize := Num (int ?a)\<rparr>"
  have run: "oack c = Inr (?c', [Out (clientKey c)
                        ([0, 6] @ fst post @
                         bytes_of (''blksize'' @ [CHR 0x00] @ decimal ?a @ [CHR 0x00]) @
                         snd post)],
                  Wait 1000 (State Oack))"
    using assms(1) ne o cc by (simp add: oack_def Let_def write_header_6)
  have ack: "listener_of Oack ?c' [0, 4, 0, 0] = Inr (Some (State PrepareDataPacket))"
    using readUInt16BE_4 [of 0 4 0 0] by (simp add: listener_of_def oack_listener_def)
  have slice: "js_slice (data c) (Num 0) (Num (int ?a)) = take ?a (data c)"
    by (simp add: js_slice_def sliceIndex_def slice_def min_def)
  have pkt: "dataPacket ?c' = [0, 3, 0, 1] @ take ?a (data c)"
    using assms(2) slice by (simp add: dataPacket_def)
  have "step message_of routes (?c', Waiting Oack 1000 (State Oack)) (Datagram [0, 4, 0, 0]) =
      goto message_of routes (State PrepareDataPacket) ?c'"
    using ack by (simp add: step_def)
  also have "snd \<dots> = [Out (clientKey c) ([0, 3, 0, 1] @ take ?a (data c))]"
    using assms(2) pkt
    by (simp add: goto_prepareDataPacket)
  finally have first: "snd (step message_of routes (?c', Waiting Oack 1000 (State Oack)) (Datagram [0, 4, 0, 0])) =
      [Out (clientKey c) ([0, 3, 0, 1] @ take ?a (data c))]" .
  from run first show ?thesis by force
qed

theorem blksize_negotiation_witness:
  "(\<exists>c' before after.
      oack (oack_ctx [(''blksize'', ''2000'')] [7, 8, 9]) =
        Inr (c', [Out ''client'' ([0, 6] @ before @ bytes_of (''blksize'' @ [CHR 0x00] @ ''1428'' @ [CHR 0x00]) @ after)],
             Wait 1000 (State Oack)) \<and>
      blocksize c' = Num 1428 \<and>
      snd (step sample_text [] (c', Waiting Oack 1000 (State Oack)) (Datagram [0, 4, 0, 0])) =
        [Out ''client'' [0, 3, 0, 1, 7, 8, 9]]) \<and>
   (\<exists>c' before after.
      oack (oack_ctx [(''tsize'', ''0''), (''blksize'', ''100'')] [7, 8, 9]) =
        Inr (c', [Out ''client'' ([0, 6] @ before @ bytes_of (''blksize'' @ [CHR 0x00] @ ''100'' @ [CHR 0x00]) @ after)],
             Wait 1000 (State Oack)) \<and>
      blocksize c' = Num 100 \<and>
      snd (step sample_text [] (c', Waiting Oack 1000 (State Oack)) (Datagram [0, 4, 0, 0])) =
        [Out ''client'' [0, 3, 0, 1, 7, 8, 9]])"
proof -
  have d: "list_all isDigit ''2000''" "list_all isDigit ''100''"
    by (simp_all add: isDigit_def)
  have v: "digitsValue ''2000'' = 2000" "digitsValue ''100'' = 100"
    by (simp_all add: digitsValue_def)
  have a: "try_no (oack_ctx os dat) \<le> 3" "block (oack_ctx os dat) = 0"
    "options (oack_ctx os dat) = os" "clientKey (oack_ctx os dat) = ''client''"
    "data (oack_ctx os dat) = dat" for os dat
    by (simp_all add: oack_ctx_def transfer_ctx_def new_ctx_def)
  have "distinct (map fst (options (oack_ctx [(''blksize'', ''2000'')] [7, 8, 9])))"
    and "(''blksize'', ''2000'') \<in> set (options (oack_ctx [(''blksize'', ''2000'')] [7, 8, 9]))"
    by (simp_all add: a)
  from blksize_negotiation [OF a(1) a(2) this d(1), where message_of = sample_text and routes = "[]"]
  have one: "\<exists>c' before after.
      oack (oack_ctx [(''blksize'', ''2000'')] [7, 8, 9]) =
        Inr (c', [Out ''client'' ([0, 6] @ before @ bytes_of (''blksize'' @ [CHR 0x00] @ ''1428'' @ [CHR 0x00]) @ after)],
             Wait 1000 (State Oack)) \<and>
      blocksize c' = Num 1428 \<and>
      snd (step sample_text [] (c', Waiting Oack 1000 (State Oack)) (Datagram [0, 4, 0, 0])) =
        [Out ''client'' [0, 3, 0, 1, 7, 8, 9]]"
    by (simp add: a v decimal_1428)
  have "distinct (map fst (options (oack_ctx [(''tsize'', ''0''), (''blksize'', ''100'')] [7, 8, 9])))"
    and "(''blksize'', ''100'') \<in> set (options (oack_ctx [(''tsize'', ''0''), (''blksize'', ''100'')] [7, 8, 9]))"
    by (simp_all add: a)
  from blksize_negotiation [OF a(1) a(2) this d(2), where message_of = sample_text and routes = "[]"]
  have two: "\<exists>c' before after.
      oack (oack_ctx [(''tsize'', ''0''), (''blksize'', ''100'')] [7, 8, 9]) =
        Inr (c', [Out ''client'' ([0, 6] @ before @ bytes_of (''blksize'' @ [CHR 0x00] @ ''100'' @ [CHR 0x00]) @ after)],
             Wait 1000 (State Oack)) \<and>
      blocksize c' = Num 100 \<and>
      snd (step sample_text [] (c', Waiting Oack 1000 (State Oack)) (Datagram [0, 4, 0, 0])) =
        [Out ''client'' [0, 3, 0, 1, 7, 8, 9]]"
    by (simp add: a v decimal_100)
  from one two show ?thesis by blast
qed

subsection \<open>Parsing a read request\<close>

lemma toString_bytes_of: "toString (bytes_of s) = s"
proof -
  have "char_of (unat (of_nat (of_char c) :: byte)) = c" for c :: char
  proof -
    have "(of_char c :: nat) < 256" by (rule nat_of_char_less_256)
    then have "unat (of_nat (of_char c) :: byte) = of_char c"
      by (simp add: unat_of_nat)
    then show ?thesis by simp
  qed
  then show ?thesis by (simp add: toString_def bytes_of_def map_idI)
qed

lemma bytes_of_nonzero:
  assumes "wire_text s"
  shows "\<forall>x\<in>set (bytes_of s). x \<noteq> 0"
proof
  fix x assume "x \<in> set (bytes_of s)"
  then obtain c where c: "c \<in> set s" and x: "x = of_nat (of_char c)"
    by (auto simp: bytes_of_def)
  from assms c have "0 < (of_char c :: nat)" "(of_char c :: nat) < 128"
    by (auto simp: wire_text_def list_all_iff)
  then have "unat (of_nat (of_char c) :: byte) = of_char c"
    by (simp add: unat_of_nat)
  with \<open>0 < (of_char c :: nat)\<close> show "x \<noteq> 0"
    unfolding x by (metis less_numeral_extra(3) unat_0)
qed

lemma scan_text:
  "\<forall>x\<in>set bs. x \<noteq> 0 \<Longrightarrow> scan (pre @ bs @ 0 # rest) (length pre) = length pre + length bs"
proof (induction bs arbitrary: pre)
  case Nil
  show ?case by (subst scan.simps) (simp add: buf_at_def)
next
  case (Cons x bs)
  then have x: "x \<noteq> 0" and rest: "\<forall>x\<in>set bs. x \<noteq> 0" by simp_all
  have "scan (pre @ (x # bs) @ 0 # rest) (length pre) =
        scan (pre @ (x # bs) @ 0 # rest) (length pre + 1)"
    using x by (subst scan.simps) (simp add: buf_at_def)
  also have "\<dots> = scan ((pre @ [x]) @ bs @ 0 # rest) (length (pre @ [x]))"
    by simp
  also have "\<dots> = length (pre @ [x]) + length bs"
    by (rule Cons.IH [OF rest])
  finally show ?case by simp
qed

lemma cstr_text:
  assumes "buf p = pre @ bytes_of s @ 0 # rest" and "ptr p = length pre" and "wire_text s"
  shows "cstr p = (s, p\<lparr>ptr := length pre + length s + 1\<rparr>)"
proof -
  have len: "length (bytes_of s) = length s" by (simp add: bytes_of_def)
  have "scan (buf p) (ptr p) = length pre + length s"
    using scan_text [OF bytes_of_nonzero [OF assms(3)], of pre rest] assms(1,2) len by simp
  moreover have "slice (buf p) (length pre) (length pre + length s) = bytes_of s"
    using assms(1) len by (simp add: slice_def)
  ultimately show ?thesis
    using assms(2) by (simp add: cstr_def Let_def toString_bytes_of)
qed

lemma optionStep_eq:
  "cstr p = (k, p1) \<Longrightarrow> cstr p1 = (v, p2) \<Longrightarrow>
   optionStep (p, m) = (p2, keep_option m (k, v))"
  by (simp add: optionStep_def keep_option_def)

lemma parseOptions_at_end:
  assumes "ptr p = length (buf p)"
  shows "parseOptions (p, m) = (p\<lparr>ptr := length (buf p) + 2\<rparr>, m)"
proof -
  have one: "cstr p = ([], p\<lparr>ptr := length (buf p) + 1\<rparr>)"
    using cstr_past_end [of p] assms by simp
  have two: "cstr (p\<lparr>ptr := length (buf p) + 1\<rparr>) = ([], p\<lparr>ptr := length (buf p) + 2\<rparr>)"
    using cstr_past_end [of "p\<lparr>ptr := length (buf p) + 1\<rparr>"] by simp
  have st: "optionStep (p, m) = (p\<lparr>ptr := length (buf p) + 2\<rparr>, m)"
    using optionStep_eq [OF one two, of m] by (simp add: keep_option_def)
  have "parseOptions (p, m) = parseOptions (optionStep (p, m))"
    using assms by (subst parseOptions.simps) (simp add: endReached_def)
  also have "\<dots> = (p\<lparr>ptr := length (buf p) + 2\<rparr>, m)"
    unfolding st by (subst parseOptions.simps) (simp add: endReached_def)
  finally show ?thesis .
qed

lemma parseOptions_encoded:
  assumes "\<forall>kv\<in>set os. wire_text (fst kv) \<and> wire_text (snd kv)"
    and "buf p = pre @ encode_options os" and "ptr p = length pre"
  shows "parseOptions (p, m) = (p\<lparr>ptr := length (buf p) + 2\<rparr>, foldl keep_option m os)"
  using assms
proof (induction os arbitrary: p pre m)
  case Nil
  then have "ptr p = length (buf p)" by (simp add: encode_options_def)
  then show ?case by (simp add: parseOptions_at_end)
next
  case (Cons kv os)
  obtain k v where kv: "kv = (k, v)" by (cases kv)
  from Cons.prems(1) kv have tk: "wire_text k" and tv: "wire_text v"
    and rest: "\<forall>kv\<in>set os. wire_text (fst kv) \<and> wire_text (snd kv)"
    by simp_all
  have lk: "length (bytes_of k) = length k" and lv: "length (bytes_of v) = length v"
    by (simp_all add: bytes_of_def)
  have b1: "buf p = pre @ bytes_of k @ 0 # (bytes_of v @ 0 # encode_options os)"
    using Cons.prems(2) by (simp add: encode_options_def kv)
  let ?p1 = "p\<lparr>ptr := length pre + length k + 1\<rparr>"
  have c1: "cstr p = (k, ?p1)"
    by (rule cstr_text [OF b1 Cons.prems(3) tk])
  have b2: "buf ?p1 = (pre @ bytes_of k @ [0]) @ bytes_of v @ 0 # encode_options os"
    using b1 by simp
  have "ptr ?p1 = length (pre @ bytes_of k @ [0])" by (simp add: lk)
  from cstr_text [OF b2 this tv]
  have c2: "cstr ?p1 = (v, p\<lparr>ptr := length pre + length k + 1 + length v + 1\<rparr>)"
    by (simp add: lk)
  let ?p2 = "p\<lparr>ptr := length pre + length k + 1 + length v + 1\<rparr>"
  have st: "optionStep (p, m) = (?p2, keep_option m kv)"
    using optionStep_eq [OF c1 c2, of m] by (simp add: kv)
  have inside: "\<not> endReached p"
    using Cons.prems(2,3) by (simp add: endReached_def)
  have b3: "buf ?p2 = (pre @ bytes_of k @ [0] @ bytes_of v @ [0]) @ encode_options os"
    using b1 by simp
  have p3: "ptr ?p2 = length (pre @ bytes_of k @ [0] @ bytes_of v @ [0])"
    by (simp add: lk lv)
  have "parseOptions (p, m) = parseOptions (?p2, keep_option m kv)"
    using inside st by (subst parseOptions.simps) simp
  also have "\<dots> = (?p2\<lparr>ptr := length (buf ?p2) + 2\<rparr>, foldl keep_option (keep_option m kv) os)"
    by (rule Cons.IH [OF rest b3 p3])
  finally show ?case by simp
qed

lemma readUInt16BE_rrq: "readUInt16BE (rrq name m os) 0 = Inr 1"
  by (simp add: rrq_def readUInt16BE_def buf_at_def)

lemma init_rrq:
  assumes "request c = Some (rrq name m os)"
    and "wire_text name" and "name \<noteq> []" and "wire_text m"
    and "\<forall>kv\<in>set os. wire_text (fst kv) \<and> wire_text (snd kv)"
  shows "init c =
     Inr (c\<lparr>request := None, filename := name, mode := m, try_no := 0,
            options := foldl keep_option [] os\<rparr>, [], Next (State GetData))"
proof -
  let ?r = "rrq name m os"
  have ln: "length (bytes_of name) = length name" and lm: "length (bytes_of m) = length m"
    by (simp_all add: bytes_of_def)
  let ?p1 = "\<lparr>buf = ?r, ptr = 2\<rparr>"
  have u: "uint16 \<lparr>buf = ?r, ptr = 0\<rparr> = Inr (1, ?p1)"
    by (simp add: uint16_def readUInt16BE_rrq)
  have b1: "buf ?p1 = [0, 1] @ bytes_of name @ 0 # (bytes_of m @ 0 # encode_options os)"
    by (simp add: rrq_def encode_options_def)
  have "ptr ?p1 = length [0, 1 :: byte]" by simp
  from cstr_text [OF b1 this assms(2)]
  have c1: "cstr ?p1 = (name, \<lparr>buf = ?r, ptr = length name + 3\<rparr>)" by simp
  let ?p2 = "\<lparr>buf = ?r, ptr = length name + 3\<rparr>"
  have b2: "buf ?p2 = ([0, 1] @ bytes_of name @ [0]) @ bytes_of m @ 0 # encode_options os"
    by (simp add: rrq_def encode_options_def)
  have "ptr ?p2 = length ([0, 1] @ bytes_of name @ [0])" by (simp add: ln)
  from cstr_text [OF b2 this assms(4)]
  have c2: "cstr ?p2 = (m, \<lparr>buf = ?r, ptr = length name + length m + 4\<rparr>)" by (simp add: ln)
  let ?p3 = "\<lparr>buf = ?r, ptr = length name + length m + 4\<rparr>"
  have b3: "buf ?p3 = ([0, 1] @ bytes_of name @ [0] @ bytes_of m @ [0]) @ encode_options os"
    by (simp add: rrq_def encode_options_def)
  have "ptr ?p3 = length ([0, 1] @ bytes_of name @ [0] @ bytes_of m @ [0])"
    by (simp add: ln lm)
  from parseOptions_encoded [OF assms(5) b3 this, of "[]"]
  have po: "parseOptions (?p3, []) = (?p3\<lparr>ptr := length (buf ?p3) + 2\<rparr>, foldl keep_option [] os)" .
  show ?thesis
    using assms(1,3) u c1 c2 po by (simp add: init_def Let_def)
qed


lemma Map_set_keys_present: "k \<in> fst ` set m \<Longrightarrow> map fst (Map_set k v m) = map fst m"
  by (induction m) force+

lemma Map_set_keys_new: "k \<notin> fst ` set m \<Longrightarrow> map fst (Map_set k v m) = map fst m @ [k]"
  by (induction m) auto

lemma Map_set_keys:
  "map fst (Map_set k v m) = (if k \<in> fst ` set m then map fst m else map fst m @ [k])"
  by (simp add: Map_set_keys_present Map_set_keys_new)

lemma Map_set_lookup: "map_of (Map_set k v m) = (map_of m)(k \<mapsto> v)"
  by (induction m) auto

lemma first_occurrences_snoc:
  "rev (remdups (rev (xs @ [x]))) =
     (if x \<in> set xs then rev (remdups (rev xs)) else rev (remdups (rev xs)) @ [x])"
  by simp

lemma keep_option_keys:
  "map fst (foldl keep_option [] os) = rev (remdups (rev (filter (\<lambda>k. k \<noteq> []) (map fst os))))"
proof (induction os rule: rev_induct)
  case Nil
  show ?case by simp
next
  case (snoc kv os)
  let ?m = "foldl keep_option [] os"
  let ?ks = "filter (\<lambda>k. k \<noteq> []) (map fst os)"
  have set_eq: "fst ` set ?m = set ?ks"
  proof -
    have "set (map fst ?m) = set (rev (remdups (rev ?ks)))" by (simp only: snoc.IH)
    then show ?thesis by simp
  qed
  show ?case
  proof (cases "fst kv = []")
    case True
    with snoc.IH show ?thesis by (simp add: keep_option_def)
  next
    case False
    have "map fst (foldl keep_option [] (os @ [kv])) = map fst (Map_set (fst kv) (snd kv) ?m)"
      using False by (simp add: keep_option_def)
    also have "\<dots> = (if fst kv \<in> set ?ks then map fst ?m else map fst ?m @ [fst kv])"
      by (simp only: Map_set_keys set_eq)
    also have "\<dots> = rev (remdups (rev (?ks @ [fst kv])))"
      by (simp only: first_occurrences_snoc snoc.IH)
    also have "?ks @ [fst kv] = filter (\<lambda>k. k \<noteq> []) (map fst (os @ [kv]))"
      using False by simp
    finally show ?thesis .
  qed
qed

lemma keep_option_lookup:
  "k \<noteq> [] \<Longrightarrow> map_of (foldl keep_option [] os) k = map_of (rev os) k"
proof (induction os rule: rev_induct)
  case Nil
  show ?case by simp
next
  case (snoc kv os)
  obtain k' v' where kv: "kv = (k', v')" by (cases kv)
  show ?case
  proof (cases "k' = []")
    case True
    with snoc show ?thesis by (simp add: keep_option_def kv)
  next
    case False
    with snoc show ?thesis by (simp add: keep_option_def kv Map_set_lookup)
  qed
qed

lemma last_occurrence:
  "k \<in> fst ` set os \<Longrightarrow>
   map_of (rev os) k = Some (snd (last (filter (\<lambda>e. fst e = k) os)))"
proof (induction os rule: rev_induct)
  case Nil
  then show ?case by simp
next
  case (snoc kv os)
  show ?case
  proof (cases "fst kv = k")
    case True
    then show ?thesis by (cases kv) simp
  next
    case False
    with snoc.prems have "k \<in> fst ` set os" by auto
    with snoc.IH False show ?thesis by (cases kv) simp
  qed
qed

lemma one_entry:
  "distinct (map fst m) \<Longrightarrow> k \<in> fst ` set m \<Longrightarrow> length (filter (\<lambda>e. fst e = k) m) = 1"
proof (induction m)
  case Nil
  then show ?case by simp
next
  case (Cons e m)
  show ?case
  proof (cases "fst e = k")
    case True
    with Cons.prems have "k \<notin> fst ` set m" by auto
    then have "filter (\<lambda>e. fst e = k) m = []" by (auto simp: filter_empty_conv)
    with True show ?thesis by simp
  next
    case False
    with Cons show ?thesis by auto
  qed
qed

text \<open>
  Claim C6. For a read request laid out as above, init ends in \<open>getData\<close> with an
  options map in which a non-empty key of the request occurs exactly once, bound to the
  value of its last occurrence in the request; the keys of the map are the non-empty
  keys of the request in the order of their first occurrences.
\<close>

theorem repeated_option_key:
  assumes "request c = Some (rrq name m os)"
    and "wire_text name" and "name \<noteq> []" and "wire_text m"
    and "\<forall>kv\<in>set os. wire_text (fst kv) \<and> wire_text (snd kv)"
    and "key \<noteq> []" and "key \<in> fst ` set os"
  shows "\<exists>c'. init c = Inr (c', [], Next (State GetData)) \<and>
           length (filter (\<lambda>e. fst e = key) (options c')) = 1 \<and>
           map_of (options c') key = Some (snd (last (filter (\<lambda>e. fst e = key) os))) \<and>
           map fst (options c') = rev (remdups (rev (filter (\<lambda>k. k \<noteq> []) (map fst os))))"
proof -
  let ?m = "foldl keep_option [] os"
  have keys: "map fst ?m = rev (remdups (rev (filter (\<lambda>k. k \<noteq> []) (map fst os))))"
    by (rule keep_option_keys)
  have d: "distinct (map fst ?m)" by (simp only: keys distinct_rev distinct_remdups)
  have "set (map fst ?m) = set (filter (\<lambda>k. k \<noteq> []) (map fst os))"
    by (simp only: keys set_rev set_remdups)
  with assms(6,7) have mem: "key \<in> fst ` set ?m" by auto
  have "map_of ?m key = Some (snd (last (filter (\<lambda>e. fst e = key) os)))"
    using keep_option_lookup [OF assms(6)] last_occurrence [OF assms(7)] by simp
  with one_entry [OF d mem] keys init_rrq [OF assms(1-5)] show ?thesis by simp
qed

theorem repeated_option_key_witness:
  "\<exists>c'. init (new_ctx ''client''
              (rrq ''f'' ''octet'' [(''blksize'', ''9''), (''tsize'', ''0''), (''blksize'', ''64'')])) =
           Inr (c', [], Next (State GetData)) \<and>
         length (filter (\<lambda>e. fst e = ''blksize'') (options c')) = 1 \<and>
         map_of (options c') ''blksize'' = Some ''64'' \<and>
         map fst (options c') = [''blksize'', ''tsize'']"
proof -
  let ?os = "[(''blksize'', ''9''), (''tsize'', ''0''), (''blksize'', ''64'')]"
  let ?c = "new_ctx ''client'' (rrq ''f'' ''octet'' ?os)"
  have "request ?c = Some (rrq ''f'' ''octet'' ?os)" by (simp add: new_ctx_def)
  moreover have "wire_text ''f''" "''f'' \<noteq> []" "wire_text ''octet''"
    "\<forall>kv\<in>set ?os. wire_text (fst kv) \<and> wire_text (snd kv)"
    "''blksize'' \<noteq> []" "''blksize'' \<in> fst ` set ?os"
    by (simp_all add: wire_text_def)
  ultimately show ?thesis
    using repeated_option_key [of ?c "''f''" "''octet''" ?os "''blksize''"] by simp
qed

subsection \<open>A whole transfer\<close>

lemma unat_byte: "n < 256 \<Longrightarrow> unat (of_nat n :: byte) = n"
  by (simp add: unat_of_nat)

lemma readUInt16BE_ack:
  assumes "k < 65536"
  shows "readUInt16BE [0, 4, of_nat (k div 256), of_nat (k mod 256)] 0 = Inr 4"
    and "readUInt16BE [0, 4, of_nat (k div 256), of_nat (k mod 256)] 2 = Inr k"
proof -
  from assms have "k div 256 < 256" by simp
  then have "unat (of_nat (k div 256) :: byte) = k div 256" by (rule unat_byte)
  moreover have "unat (of_nat (k mod 256) :: byte) = k mod 256" by (rule unat_byte) simp
  ultimately show "readUInt16BE [0, 4, of_nat (k div 256), of_nat (k mod 256)] 2 = Inr k"
    by (simp add: readUInt16BE_4)
  show "readUInt16BE [0, 4, of_nat (k div 256), of_nat (k mod 256)] 0 = Inr 4"
    by (simp add: readUInt16BE_4)
qed

lemma js_slice_nat: "js_slice d (Num (int s)) (Num (int e)) = slice d s e"
  by (auto simp: js_slice_def sliceIndex_def slice_def min_def)

lemma dataPacket_block:
  "blocksize c = Num (int bs) \<Longrightarrow> dataPacket c = block_packet (data c) bs (block c + 1)"
proof -
  assume bs: "blocksize c = Num (int bs)"
  have "js_mul (Num (int (block c))) (blocksize c) = Num (int (block c * bs))"
    and "js_mul (Num (int (block c + 1))) (blocksize c) = Num (int ((block c + 1) * bs))"
    unfolding bs by (simp_all add: algebra_simps)
  then show ?thesis
    by (simp only: dataPacket_def block_packet_def js_slice_nat add_diff_cancel_right')
qed

lemma length_block_packet:
  "0 < k \<Longrightarrow> length (block_packet d bs k) = 4 + min bs (length d - (k - 1) * bs)"
  by (cases k) (auto simp: block_packet_def slice_def min_def)

lemma run_append:
  "run message_of routes cfg (xs @ ys) =
     (fst (run message_of routes (fst (run message_of routes cfg xs)) ys),
      snd (run message_of routes cfg xs) @ snd (run message_of routes (fst (run message_of routes cfg xs)) ys))"
  by (induction xs arbitrary: cfg) (simp_all add: split_beta)

lemma run_from_goto:
  "goto message_of routes a c = (cfg, fx) \<Longrightarrow>
   run_from message_of routes a c evs = (fst (run message_of routes cfg evs), fx @ snd (run message_of routes cfg evs))"
  by (simp add: run_from_def split_beta)

lemma run_step_goto:
  "step message_of routes cfg ev = goto message_of routes a c \<Longrightarrow> run message_of routes cfg (ev # evs) = run_from message_of routes a c evs"
  by (simp add: run_from_def split_beta)

lemma silent_block: "block c = block c' \<Longrightarrow> silent c ev = silent c' ev"
  by (cases ev) (auto simp: silent_def sendDataPacket_listener_def split: sum.splits)

lemma acked_step:
  assumes "blocksize c = Num (int bs)" and "block c < 65535"
  shows "step message_of routes
           (c\<lparr>packet := dataPacket c, block := block c + 1, try_no := t\<rparr>,
            Waiting SendDataPacket 1000 (State SendDataPacket))
           (ack (block c + 1)) =
         goto message_of routes
           (if bs \<le> length (data c) - block c * bs then State PrepareDataPacket else Null)
           (c\<lparr>packet := dataPacket c, block := block c + 1, try_no := t\<rparr>)"
proof -
  let ?c1 = "c\<lparr>packet := dataPacket c, block := block c + 1, try_no := t\<rparr>"
  have k: "block c + 1 < 65536" using assms(2) by simp
  have len: "int (length (dataPacket c)) = 4 + int (min bs (length (data c) - block c * bs))"
    using length_block_packet [of "block c + 1" "data c" bs] dataPacket_block [OF assms(1)]
    by simp
  have "sendDataPacket_listener ?c1 [0, 4, of_nat ((block c + 1) div 256), of_nat ((block c + 1) mod 256)] =
      Inr (Some (if bs \<le> length (data c) - block c * bs then State PrepareDataPacket else Null))"
    unfolding sendDataPacket_listener_def readUInt16BE_ack [OF k]
    using len assms(1) by (auto simp: min_def)
  then show ?thesis
    by (simp add: step_def ack_def listener_of_def)
qed

text \<open>One round of a transfer: the packet is built and sent, repeated on each timeout,
  and then acknowledged.\<close>

lemma transfer_round:
  assumes "blocksize c = Num (int bs)" and "block c < 65535"
    and "timeouts q \<le> 3" and "\<forall>ev\<in>set q. silent (c\<lparr>block := block c + 1\<rparr>) ev"
  shows "run_from message_of routes (State PrepareDataPacket) c (q @ ack (block c + 1) # rest) =
     (fst (run_from message_of routes
             (if bs \<le> length (data c) - block c * bs then State PrepareDataPacket else Null)
             (c\<lparr>packet := dataPacket c, block := block c + 1, try_no := 1 + timeouts q\<rparr>) rest),
      replicate (1 + timeouts q) (Out (clientKey c) (dataPacket c)) @
      snd (run_from message_of routes
             (if bs \<le> length (data c) - block c * bs then State PrepareDataPacket else Null)
             (c\<lparr>packet := dataPacket c, block := block c + 1, try_no := 1 + timeouts q\<rparr>) rest))"
proof -
  let ?c1 = "c\<lparr>packet := dataPacket c, block := block c + 1\<rparr>"
  let ?w = "Waiting SendDataPacket 1000 (State SendDataPacket)"
  let ?out = "Out (clientKey c) (dataPacket c)"
  let ?a = "if bs \<le> length (data c) - block c * bs then State PrepareDataPacket else Null"
  let ?c2 = "c\<lparr>packet := dataPacket c, block := block c + 1, try_no := 1 + timeouts q\<rparr>"
  have enter: "goto message_of routes (State PrepareDataPacket) c = ((?c1\<lparr>try_no := 1\<rparr>, ?w), [?out])"
    using assms(2) by (simp add: goto_prepareDataPacket)
  have quiet: "\<forall>ev\<in>set q. silent ?c1 ev"
    using assms(4) silent_block [of "c\<lparr>block := block c + 1\<rparr>" ?c1] by simp
  have "(1::nat) \<le> 4" by simp
  from retransmit_run [OF quiet this, where message_of = message_of and routes = routes] assms(3)
  have wait: "run message_of routes (?c1\<lparr>try_no := 1\<rparr>, ?w) q = ((?c2, ?w), replicate (timeouts q) ?out)"
    by simp
  have acked: "run message_of routes (?c2, ?w) (ack (block c + 1) # rest) = run_from message_of routes ?a ?c2 rest"
    by (rule run_step_goto) (rule acked_step [OF assms(1,2)])
  have "run message_of routes (?c1\<lparr>try_no := 1\<rparr>, ?w) (q @ ack (block c + 1) # rest) =
      (fst (run_from message_of routes ?a ?c2 rest), replicate (timeouts q) ?out @ snd (run_from message_of routes ?a ?c2 rest))"
    by (simp only: run_append wait acked fst_conv snd_conv)
  with run_from_goto [OF enter, of "q @ ack (block c + 1) # rest"]
  show ?thesis by (simp add: replicate_append_same)
qed

lemma rounds_Cons: "i < j \<Longrightarrow> rounds quiet i j = quiet i @ ack i # rounds quiet (i + 1) j"
  by (simp add: rounds_def upt_rec [of i j])

lemma sent_Cons:
  "i < j \<Longrightarrow> sent key d bs quiet i j =
     replicate (1 + timeouts (quiet i)) (Out key (block_packet d bs i)) @ sent key d bs quiet (i + 1) j"
  by (simp add: sent_def upt_rec [of i j])

lemma rounds_Nil: "rounds quiet i i = []" and sent_Nil: "sent key d bs quiet i i = []"
  by (simp_all add: rounds_def sent_def)

lemma transfer_run:
  assumes "blocksize c = Num (int bs)" and "0 < bs"
    and "length (data c) div bs = M" and "block c \<le> M" and "M < 65535"
    and "\<forall>k. timeouts (quiet k) \<le> 3 \<and> (\<forall>ev\<in>set (quiet k). silent (c\<lparr>block := k\<rparr>) ev)"
  shows "\<exists>c'. run_from message_of routes (State PrepareDataPacket) c (rounds quiet (block c + 1) (M + 2)) =
           ((c', Ended), sent (clientKey c) (data c) bs quiet (block c + 1) (M + 2))"
  using assms
proof (induction "M - block c" arbitrary: c)
  case 0
  then have b: "block c = M" by simp
  have small: "block c < 65535" using b "0.prems"(5) by simp
  let ?q = "quiet (block c + 1)"
  let ?c2 = "c\<lparr>packet := dataPacket c, block := block c + 1, try_no := 1 + timeouts ?q\<rparr>"
  from "0.prems"(6) have q: "timeouts ?q \<le> 3" "\<forall>ev\<in>set ?q. silent (c\<lparr>block := block c + 1\<rparr>) ev"
    by simp_all
  have "length (data c) - M * bs = length (data c) mod bs"
    using "0.prems"(3) by (metis minus_div_mult_eq_mod)
  then have short: "\<not> bs \<le> length (data c) - block c * bs"
    using b mod_less_divisor [OF "0.prems"(2), of "length (data c)"] by simp
  have r: "rounds quiet (block c + 1) (M + 2) = ?q @ ack (block c + 1) # []"
    using b rounds_Cons [of "M + 1" "M + 2" quiet] by (simp add: rounds_Nil)
  have s: "sent (clientKey c) (data c) bs quiet (block c + 1) (M + 2) =
      replicate (1 + timeouts ?q) (Out (clientKey c) (block_packet (data c) bs (block c + 1)))"
    using b sent_Cons [of "M + 1" "M + 2" "clientKey c" "data c" bs quiet] by (simp add: sent_Nil)
  have "run_from message_of routes Null ?c2 [] = ((?c2, Ended), [])"
    by (simp add: run_from_def goto_Null finish_null)
  with transfer_round [OF "0.prems"(1) small q, where message_of = message_of and routes = routes and rest = "[]"] short
  have "run_from message_of routes (State PrepareDataPacket) c (?q @ ack (block c + 1) # []) =
      ((?c2, Ended), replicate (1 + timeouts ?q) (Out (clientKey c) (dataPacket c)))"
    by simp
  then show ?case
    unfolding r s dataPacket_block [OF "0.prems"(1)] by blast
next
  case (Suc n)
  then have b: "block c < M" by simp
  have small: "block c < 65535" using b Suc.prems(5) by simp
  let ?q = "quiet (block c + 1)"
  let ?c2 = "c\<lparr>packet := dataPacket c, block := block c + 1, try_no := 1 + timeouts ?q\<rparr>"
  from Suc.prems(6) have q: "timeouts ?q \<le> 3" "\<forall>ev\<in>set ?q. silent (c\<lparr>block := block c + 1\<rparr>) ev"
    by simp_all
  from b have "block c + 1 \<le> M" by simp
  then have "(block c + 1) * bs \<le> M * bs" by (rule mult_le_mono1)
  also have "\<dots> \<le> length (data c)" using Suc.prems(3) by auto
  finally have full: "bs \<le> length (data c) - block c * bs" by simp
  have n: "n = M - block ?c2" using Suc.hyps(2) by simp
  have quiet2: "\<forall>k. timeouts (quiet k) \<le> 3 \<and> (\<forall>ev\<in>set (quiet k). silent (?c2\<lparr>block := k\<rparr>) ev)"
  proof (intro allI conjI ballI)
    fix k show "timeouts (quiet k) \<le> 3" using Suc.prems(6) by simp
    fix ev assume "ev \<in> set (quiet k)"
    with Suc.prems(6) have "silent (c\<lparr>block := k\<rparr>) ev" by simp
    then show "silent (?c2\<lparr>block := k\<rparr>) ev"
      using silent_block [of "c\<lparr>block := k\<rparr>" "?c2\<lparr>block := k\<rparr>" ev] by simp
  qed
  have "\<exists>c'. run_from message_of routes (State PrepareDataPacket) ?c2 (rounds quiet (block ?c2 + 1) (M + 2)) =
           ((c', Ended), sent (clientKey ?c2) (data ?c2) bs quiet (block ?c2 + 1) (M + 2))"
    using Suc.prems(1,2,3,5) b quiet2 by (intro Suc.hyps(1) [OF n]) simp_all
  then obtain c' where rest:
    "run_from message_of routes (State PrepareDataPacket) ?c2 (rounds quiet (block c + 1 + 1) (M + 2)) =
       ((c', Ended), sent (clientKey c) (data c) bs quiet (block c + 1 + 1) (M + 2))"
    by auto
  have r: "rounds quiet (block c + 1) (M + 2) = ?q @ ack (block c + 1) # rounds quiet (block c + 1 + 1) (M + 2)"
    using b by (intro rounds_Cons) simp
  have s: "sent (clientKey c) (data c) bs quiet (block c + 1) (M + 2) =
      replicate (1 + timeouts ?q) (Out (clientKey c) (block_packet (data c) bs (block c + 1))) @
      sent (clientKey c) (data c) bs quiet (block c + 1 + 1) (M + 2)"
    using b by (intro sent_Cons) simp
  from transfer_round [OF Suc.prems(1) small q, where message_of = message_of and routes = routes and rest = "rounds quiet (block c + 1 + 1) (M + 2)"] full rest
  have "run_from message_of routes (State PrepareDataPacket) c
          (?q @ ack (block c + 1) # rounds quiet (block c + 1 + 1) (M + 2)) =
      ((c', Ended), replicate (1 + timeouts ?q) (Out (clientKey c) (dataPacket c)) @
                    sent (clientKey c) (data c) bs quiet (block c + 1 + 1) (M + 2))"
    by simp
  then show ?case
    unfolding r s dataPacket_block [OF Suc.prems(1)] by blast
qed


lemma prompt_rounds: "rounds (\<lambda>k. []) i j = map ack [i ..< j]"
  by (simp add: rounds_def)

lemma prompt_sent:
  "sent key d bs (\<lambda>k. []) i j = map (\<lambda>k. Out key (block_packet d bs k)) [i ..< j]"
  by (simp add: sent_def timeouts_def)

lemma transfer_overflow:
  assumes "blocksize c = Num (int bs)" and "0 < bs"
    and "65535 * bs \<le> length (data c)" and "block c \<le> 65535"
  shows "\<exists>c'. run_from message_of routes (State PrepareDataPacket) c (map ack [block c + 1 ..< 65536]) =
           ((c', Ended),
            map (\<lambda>k. Out (clientKey c) (block_packet (data c) bs k)) [block c + 1 ..< 65536] @
            [Out (clientKey c)
               ([0, 5, 0, of_nat (getErrorCode (message_of RangeError))] @
                bytes_of (message_of RangeError) @ [0])])"
  using assms
proof (induction "65535 - block c" arbitrary: c)
  case 0
  then have b: "block c = 65535" by simp
  then have "goto message_of routes (State PrepareDataPacket) c =
      ((c, Ended),
       [Out (clientKey c)
          ([0, 5, 0, of_nat (getErrorCode (message_of RangeError))] @
           bytes_of (message_of RangeError) @ [0])])"
    by (simp add: goto_prepareDataPacket finish_error)
  with b show ?case by (simp add: run_from_def)
next
  case (Suc n)
  then have small: "block c < 65535" by simp
  let ?c2 = "c\<lparr>packet := dataPacket c, block := block c + 1, try_no := 1 + timeouts []\<rparr>"
  let ?err = "Out (clientKey c)
               ([0, 5, 0, of_nat (getErrorCode (message_of RangeError))] @
                bytes_of (message_of RangeError) @ [0])"
  from small have "block c + 1 \<le> 65535" by simp
  then have "(block c + 1) * bs \<le> 65535 * bs" by (rule mult_le_mono1)
  also note Suc.prems(3)
  finally have full: "bs \<le> length (data c) - block c * bs" by simp
  have n: "n = 65535 - block ?c2" using Suc.hyps(2) by simp
  have "\<exists>c'. run_from message_of routes (State PrepareDataPacket) ?c2 (map ack [block ?c2 + 1 ..< 65536]) =
           ((c', Ended),
            map (\<lambda>k. Out (clientKey ?c2) (block_packet (data ?c2) bs k)) [block ?c2 + 1 ..< 65536] @
            [Out (clientKey ?c2)
               ([0, 5, 0, of_nat (getErrorCode (message_of RangeError))] @
                bytes_of (message_of RangeError) @ [0])])"
    using Suc.prems small by (intro Suc.hyps(1) [OF n]) simp_all
  then obtain c' where rest:
    "run_from message_of routes (State PrepareDataPacket) ?c2 (map ack [block c + 1 + 1 ..< 65536]) =
       ((c', Ended),
        map (\<lambda>k. Out (clientKey c) (block_packet (data c) bs k)) [block c + 1 + 1 ..< 65536] @ [?err])"
    by auto
  have u: "[block c + 1 ..< 65536] = (block c + 1) # [block c + 1 + 1 ..< 65536]"
    using small by (simp add: upt_rec)
  have q: "timeouts [] \<le> 3" "\<forall>ev\<in>set []. silent (c\<lparr>block := block c + 1\<rparr>) ev"
    by (simp_all add: timeouts_def)
  from transfer_round [OF Suc.prems(1) small q, where message_of = message_of and routes = routes
      and rest = "map ack [block c + 1 + 1 ..< 65536]"] full rest
  have "run_from message_of routes (State PrepareDataPacket) c (ack (block c + 1) # map ack [block c + 1 + 1 ..< 65536]) =
      ((c', Ended),
       Out (clientKey c) (dataPacket c) #
       map (\<lambda>k. Out (clientKey c) (block_packet (data c) bs k)) [block c + 1 + 1 ..< 65536] @ [?err])"
    by (simp add: timeouts_def)
  then show ?case
    unfolding u dataPacket_block [OF Suc.prems(1)] by auto
qed

text \<open>
  Claim C1, as the code has it. Let the block size be an integer of at least 1, and
  let every DATA packet be acknowledged after at most three timeouts. A data source of \<open>N\<close> full
  blocks, with \<open>N + 1\<close> no more than the 65535 block numbers of the wire format, is
  sent as exactly the \<open>N + 1\<close> DATA packets of the blocks 1 to \<open>N + 1\<close>, each
  repeated only by its timeouts; the last one has an empty payload, and the connection
  ends without an error. A data source shorter than one block is sent as one DATA
  packet.
\<close>

theorem transfer_packet_count:
  assumes "block c = 0" and "blocksize c = Num (int bs)" and "0 < bs" and "N < 65535"
    and "\<forall>k. timeouts (quiet k) \<le> 3 \<and> (\<forall>ev\<in>set (quiet k). silent (c\<lparr>block := k\<rparr>) ev)"
  shows "(length (data c) = N * bs \<longrightarrow>
            (\<exists>c'. run_from message_of routes (State PrepareDataPacket) c (rounds quiet 1 (N + 2)) =
               ((c', Ended), sent (clientKey c) (data c) bs quiet 1 (N + 2))) \<and>
            block_packet (data c) bs (N + 1) =
              [0, 3, of_nat ((N + 1) div 256), of_nat ((N + 1) mod 256)]) \<and>
         (length (data c) < bs \<longrightarrow>
            (\<exists>c'. run_from message_of routes (State PrepareDataPacket) c (quiet 1 @ [ack 1]) =
               ((c', Ended),
                replicate (1 + timeouts (quiet 1)) (Out (clientKey c) ([0, 3, 0, 1] @ data c)))))"
proof (intro conjI impI)
  assume len: "length (data c) = N * bs"
  then have d: "length (data c) div bs = N" using assms(3) by simp
  have le: "block c \<le> N" using assms(1) by simp
  from transfer_run [OF assms(2,3) d le assms(4,5), where message_of = message_of and routes = routes] assms(1)
  show "\<exists>c'. run_from message_of routes (State PrepareDataPacket) c (rounds quiet 1 (N + 2)) =
               ((c', Ended), sent (clientKey c) (data c) bs quiet 1 (N + 2))"
    by simp
  show "block_packet (data c) bs (N + 1) = [0, 3, of_nat ((N + 1) div 256), of_nat ((N + 1) mod 256)]"
    using len by (simp add: block_packet_def slice_def)
next
  assume short: "length (data c) < bs"
  then have d0: "length (data c) div bs = 0" by simp
  have le0: "block c \<le> 0" using assms(1) by simp
  have r: "rounds quiet (block c + 1) (0 + 2) = quiet 1 @ [ack 1]"
    using assms(1) by (simp add: rounds_def upt_rec)
  have s: "sent (clientKey c) (data c) bs quiet (block c + 1) (0 + 2) =
      replicate (1 + timeouts (quiet 1)) (Out (clientKey c) (block_packet (data c) bs 1))"
    using assms(1) by (simp add: sent_def upt_rec)
  have pk: "block_packet (data c) bs 1 = [0, 3, 0, 1] @ data c"
    using short by (simp add: block_packet_def slice_def)
  have "(0::nat) < 65535" by simp
  from transfer_run [OF assms(2,3) d0 le0 this assms(5), where message_of = message_of and routes = routes, unfolded r s pk]
  show "\<exists>c'. run_from message_of routes (State PrepareDataPacket) c (quiet 1 @ [ack 1]) =
               ((c', Ended),
                replicate (1 + timeouts (quiet 1)) (Out (clientKey c) ([0, 3, 0, 1] @ data c)))" .
qed


theorem transfer_packet_count_witness:
  "(\<exists>c'. run_from sample_text [] (State PrepareDataPacket) (transfer_ctx [1, 2, 3, 4] 2)
            [ack 1, Timeout, ack 2, ack 3] =
      ((c', Ended),
       [Out ''client'' [0, 3, 0, 1, 1, 2],
        Out ''client'' [0, 3, 0, 2, 3, 4], Out ''client'' [0, 3, 0, 2, 3, 4],
        Out ''client'' [0, 3, 0, 3]])) \<and>
   (\<exists>c'. run_from sample_text [] (State PrepareDataPacket) (transfer_ctx [1, 2, 3] 512) [ack 1] =
      ((c', Ended), [Out ''client'' [0, 3, 0, 1, 1, 2, 3]]))"
proof -
  let ?quiet = "\<lambda>k::nat. if k = 2 then [Timeout] else []"
  let ?none = "\<lambda>k::nat. [] :: event list"
  have a: "block (transfer_ctx d bs) = 0" "blocksize (transfer_ctx d bs) = Num bs"
    "data (transfer_ctx d bs) = d" "clientKey (transfer_ctx d bs) = ''client''" for d bs
    by (simp_all add: transfer_ctx_def new_ctx_def)
  have q: "\<forall>k. timeouts (?quiet k) \<le> 3 \<and>
      (\<forall>ev\<in>set (?quiet k). silent ((transfer_ctx [1, 2, 3, 4] 2)\<lparr>block := k\<rparr>) ev)"
    by (simp add: timeouts_def silent_def)
  have n: "\<forall>k. timeouts (?none k) \<le> 3 \<and>
      (\<forall>ev\<in>set (?none k). silent ((transfer_ctx [1, 2, 3] 512)\<lparr>block := k\<rparr>) ev)"
    by (simp add: timeouts_def)
  have r: "rounds ?quiet 1 (2 + 2) = [ack 1, Timeout, ack 2, ack 3]"
    by (simp add: rounds_def upt_rec) (simp add: numeral_2_eq_2 numeral_3_eq_3)
  have s: "sent ''client'' [1, 2, 3, 4] 2 ?quiet 1 (2 + 2) =
      [Out ''client'' [0, 3, 0, 1, 1, 2],
       Out ''client'' [0, 3, 0, 2, 3, 4], Out ''client'' [0, 3, 0, 2, 3, 4],
       Out ''client'' [0, 3, 0, 3]]"
    by (simp add: sent_def upt_rec timeouts_def block_packet_def slice_def)
  have "blocksize (transfer_ctx [1, 2, 3, 4] 2) = Num (int 2)" by (simp add: a)
  from transfer_packet_count [OF a(1) this _ _ q, where N = 2 and message_of = sample_text and routes = "[]"]
  have one: "\<exists>c'. run_from sample_text [] (State PrepareDataPacket) (transfer_ctx [1, 2, 3, 4] 2)
            [ack 1, Timeout, ack 2, ack 3] =
      ((c', Ended),
       [Out ''client'' [0, 3, 0, 1, 1, 2],
        Out ''client'' [0, 3, 0, 2, 3, 4], Out ''client'' [0, 3, 0, 2, 3, 4],
        Out ''client'' [0, 3, 0, 3]])"
    unfolding a r s by simp
  have "blocksize (transfer_ctx [1, 2, 3] 512) = Num (int 512)" by (simp add: a)
  from transfer_packet_count [OF a(1) this _ _ n, where N = 0 and message_of = sample_text and routes = "[]"]
  have two: "\<exists>c'. run_from sample_text [] (State PrepareDataPacket) (transfer_ctx [1, 2, 3] 512) [ack 1] =
      ((c', Ended), [Out ''client'' [0, 3, 0, 1, 1, 2, 3]])"
    by (simp add: a timeouts_def)
  from one two show ?thesis by blast
qed

text \<open>
  The claim as stated, for every \<open>N\<close>, fails at 65535 blocks of the default size 512,
  each acknowledged at once: the block number 65536 does not fit the 16-bit field,
  \<open>writeUInt16BE\<close> throws, and the connection ends with an ERROR datagram of code 0
  as its 65536th datagram, where the claim has a DATA packet with an empty payload.
\<close>

theorem transfer_block_number_counterexample:
  "length (data (transfer_ctx (replicate (65535 * 512) 0) 512)) = 65535 * 512 \<and>
   snd (fst (run_from sample_text [] (State PrepareDataPacket)
               (transfer_ctx (replicate (65535 * 512) 0) 512) (map ack [1 ..< 65536]))) = Ended \<and>
   length (snd (run_from sample_text [] (State PrepareDataPacket)
               (transfer_ctx (replicate (65535 * 512) 0) 512) (map ack [1 ..< 65536]))) = 65536 \<and>
   error_code (last (snd (run_from sample_text [] (State PrepareDataPacket)
               (transfer_ctx (replicate (65535 * 512) 0) 512) (map ack [1 ..< 65536])))) = Some 0"
proof -
  let ?c = "transfer_ctx (replicate (65535 * 512) 0) 512"
  have a: "blocksize ?c = Num (int 512)" "65535 * 512 \<le> length (data ?c)" "block ?c \<le> 65535"
    "block ?c = 0" "length (data ?c) = 65535 * 512"
    by (simp_all add: transfer_ctx_def new_ctx_def)
  have g: "getErrorCode (sample_text RangeError) = 0"
    by (simp add: sample_text_def getErrorCode_def)
  have "(0::nat) < 512" by simp
  from transfer_overflow [OF a(1) this a(2) a(3), where message_of = sample_text and routes = "[]"]
    a(4) a(5) g
  show ?thesis by (auto simp: error_code_header)
qed

text \<open>With a block size of 0, which the option \<open>blksize\<close> can set, an empty packet
  is a full block: the acknowledgement of the first DATA packet is answered by a second
  one.\<close>

lemma zero_blocksize_second_packet:
  "run_from sample_text [] (State PrepareDataPacket) (transfer_ctx [] 0) [ack 1] =
     (((transfer_ctx [] 0)\<lparr>packet := [0, 3, 0, 2], block := 2, try_no := 1\<rparr>,
       Waiting SendDataPacket 1000 (State SendDataPacket)),
      [Out ''client'' [0, 3, 0, 1], Out ''client'' [0, 3, 0, 2]])"
proof -
  let ?c = "transfer_ctx [] 0"
  let ?c2 = "?c\<lparr>packet := dataPacket ?c, block := block ?c + 1, try_no := 1 + timeouts []\<rparr>"
  have a: "blocksize ?c = Num (int 0)" "block ?c < 65535" "block ?c = 0" "data ?c = []"
    "clientKey ?c = ''client''"
    by (simp_all add: transfer_ctx_def new_ctx_def)
  have q: "timeouts [] \<le> 3" "\<forall>ev\<in>set []. silent (?c\<lparr>block := block ?c + 1\<rparr>) ev"
    by (simp_all add: timeouts_def)
  have p1: "dataPacket ?c = [0, 3, 0, 1]"
    using dataPacket_block [OF a(1)] a(3,4) by (simp add: block_packet_def slice_def)
  have "blocksize ?c2 = Num (int 0)" by (simp add: a)
  from dataPacket_block [OF this] have p2: "dataPacket ?c2 = [0, 3, 0, 2]"
    using a(3,4) by (simp add: block_packet_def slice_def)
  show ?thesis
    using transfer_round [OF a(1) a(2) q, where message_of = sample_text and routes = "[]" and rest = "[]"] p1 p2 a(3,4,5)
    by (simp add: run_from_def goto_prepareDataPacket timeouts_def)
qed

subsection \<open>A whole connection\<close>

text \<open>
  A run from the request to the end: the second route serves the file, the request asks
  for a block size of 2000, the OACK answers 1428, and after the acknowledgements of the
  OACK and of block 1 the connection has ended with nothing else sent.
\<close>

lemma read_request_end_to_end:
  "snd (run_from sample_text [None, Some (Route (Value ''f'') (\<lambda>c. Success [7, 8, 9]))] (State Init)
          (new_ctx ''client'' (rrq ''f'' ''octet'' [(''blksize'', ''2000'')]))
          [Datagram [0, 4, 0, 0], ack 1]) =
     [Call 1,
      Out ''client'' ([0, 6] @ bytes_of ''blksize'' @ [0] @ bytes_of ''1428'' @ [0]),
      Out ''client'' [0, 3, 0, 1, 7, 8, 9]] \<and>
   snd (fst (run_from sample_text [None, Some (Route (Value ''f'') (\<lambda>c. Success [7, 8, 9]))] (State Init)
          (new_ctx ''client'' (rrq ''f'' ''octet'' [(''blksize'', ''2000'')]))
          [Datagram [0, 4, 0, 0], ack 1])) = Ended"
proof -
  let ?routes = "[None, Some (Route (Value ''f'') (\<lambda>c. Success [7, 8, 9]))]"
  let ?c = "new_ctx ''client'' (rrq ''f'' ''octet'' [(''blksize'', ''2000'')])"
  let ?c1 = "?c\<lparr>request := None, filename := ''f'', mode := ''octet'', try_no := 0,
            options := [(''blksize'', ''2000'')]\<rparr>"
  let ?c2 = "?c1\<lparr>data := [7, 8, 9], block := 0, blocksize := Num 512\<rparr>"
  let ?c3 = "?c2\<lparr>try_no := 1, blocksize := Num 1428\<rparr>"
  let ?oackp = "[0, 6] @ bytes_of ''blksize'' @ [0] @ bytes_of ''1428'' @ [0]"
  have i: "init ?c = Inr (?c1, [], Next (State GetData))"
    using init_rrq [of ?c "''f''" "''octet''" "[(''blksize'', ''2000'')]"]
    by (simp add: new_ctx_def wire_text_def keep_option_def)
  have g: "getData ?routes ?c1 = Inr (?c2, [Call 1], Next (State Oack))"
    by (simp add: getData_def tryRoute.simps new_ctx_def)
  have n: "Math_min (toNumber ''2000'') (Num 1428) = Num 1428"
    by (simp add: toNumber_def isDigit_def digitsValue_def)
  have o: "oack ?c2 = Inr (?c3, [Out ''client'' ?oackp], Wait 1000 (State Oack))"
    by (simp add: oack_def Let_def write_header_6 oack_option_blksize n decimal_1428
        new_ctx_def bytes_of_def)
  have enter: "goto sample_text ?routes (State Init) ?c = ((?c3, Waiting Oack 1000 (State Oack)), [Call 1, Out ''client'' ?oackp])"
    by (simp add: goto.simps [of sample_text ?routes "State Init"] goto.simps [of sample_text ?routes "State GetData"]
        goto.simps [of sample_text ?routes "State Oack"] handler_of_def i g o)
  have a0: "step sample_text ?routes (?c3, Waiting Oack 1000 (State Oack)) (Datagram [0, 4, 0, 0]) =
      goto sample_text ?routes (State PrepareDataPacket) ?c3"
    using readUInt16BE_4 [of 0 4 0 0] by (simp add: step_def listener_of_def oack_listener_def)
  have b: "blocksize ?c3 = Num (int 1428)" "block ?c3 < 65535" "block ?c3 = 0" "data ?c3 = [7, 8, 9]"
    "clientKey ?c3 = ''client''"
    by (simp_all add: new_ctx_def)
  have q: "timeouts [] \<le> 3" "\<forall>ev\<in>set []. silent (?c3\<lparr>block := block ?c3 + 1\<rparr>) ev"
    by (simp_all add: timeouts_def)
  have p: "dataPacket ?c3 = [0, 3, 0, 1, 7, 8, 9]"
    using dataPacket_block [OF b(1)] b(3,4) by (simp add: block_packet_def slice_def)
  have d: "run_from sample_text ?routes (State PrepareDataPacket) ?c3 [ack 1] =
      ((?c3\<lparr>packet := [0, 3, 0, 1, 7, 8, 9], block := 1, try_no := 1\<rparr>, Ended),
       [Out ''client'' [0, 3, 0, 1, 7, 8, 9]])"
    using transfer_round [OF b(1) b(2) q, where message_of = sample_text and routes = ?routes and rest = "[]"] p b(3,4,5)
    by (simp add: run_from_def goto_Null finish_null timeouts_def)
  have "run sample_text ?routes (?c3, Waiting Oack 1000 (State Oack)) [Datagram [0, 4, 0, 0], ack 1] =
      run_from sample_text ?routes (State PrepareDataPacket) ?c3 [ack 1]"
    by (rule run_step_goto [OF a0])
  with run_from_goto [OF enter, of "[Datagram [0, 4, 0, 0], ack 1]"] d
  show ?thesis by simp
qed

end
